theory Spec2Isabelle
  imports Complex_Main
begin

section \<open>The league model (models.py)\<close>

text \<open>
  Teams and matches are Python objects that refer to one another cyclically
  (a team lists its matches, a match names its two teams).  Objects live in a
  store and are named by references; the store is never written to by the
  code modelled here.
\<close>

type_synonym team_ref = nat
type_synonym match_ref = nat

record MatchDetails =
  team :: team_ref
  fouls :: int
  shots :: int
  shots_on_target :: int
  red_cards :: int
  yellow_cards :: int
  half_time_goals :: int
  full_time_goals :: int
  referee :: string

record Team =
  name :: string
  matches :: "match_ref list"
  seasons :: "string set"

record Match =
  season :: string
  home_team :: team_ref
  away_team :: team_ref
  order :: int
  details :: "string \<rightharpoonup> MatchDetails"
  result :: "team_ref option"

record store =
  team_at :: "team_ref \<Rightarrow> Team"
  match_at :: "match_ref \<Rightarrow> Match"

text \<open>The field \<^verbatim>\<open>_teams\<close> of \<^verbatim>\<open>League\<close>, a dictionary from team names to teams.\<close>

record League =
  teams :: "string \<rightharpoonup> team_ref"

datatype error = KeyError | IndexError | ZeroDivisionError | TypeError

text \<open>
  \<^verbatim>\<open>Team\<close> is a dataclass, so \<^verbatim>\<open>==\<close> on teams compares the fields
  \<^verbatim>\<open>(name, matches, seasons)\<close>.  \<^verbatim>\<open>Match\<close> defines no \<^verbatim>\<open>__eq__\<close>, so the
  two match lists are compared element by element by object identity.
\<close>

definition team_eq :: "store \<Rightarrow> team_ref \<Rightarrow> team_ref \<Rightarrow> bool" where
  "team_eq h a b \<longleftrightarrow>
     name (team_at h a) = name (team_at h b) \<and>
     matches (team_at h a) = matches (team_at h b) \<and>
     seasons (team_at h a) = seasons (team_at h b)"

definition get_other_team :: "store \<Rightarrow> match_ref \<Rightarrow> team_ref \<Rightarrow> team_ref" where
  "get_other_team h m known_team =
     (if team_eq h known_team (home_team (match_at h m))
      then away_team (match_at h m)
      else home_team (match_at h m))"

text \<open>\<^verbatim>\<open>League.get_team\<close> indexes the dictionary: an unknown name raises \<^verbatim>\<open>KeyError\<close>.\<close>

definition get_team :: "League \<Rightarrow> string \<Rightarrow> error + team_ref" where
  "get_team league nm = (case teams league nm of None \<Rightarrow> Inl KeyError | Some t \<Rightarrow> Inr t)"

section \<open>Path enumeration (controllers/optimization.py)\<close>

text \<open>
  The mutable objects shared by all calls of the nested function \<^verbatim>\<open>dfs\<close>:
  the path buffer, the set of visited team names and the list of recorded paths.
\<close>

record dfs_state =
  path :: "match_ref list"
  visited :: "string set"
  paths :: "match_ref list list"

text \<open>
  \<^verbatim>\<open>dfs\<close> closes over \<^verbatim>\<open>away_team\<close>, \<^verbatim>\<open>season\<close> and \<^verbatim>\<open>depth\<close> of
  \<^verbatim>\<open>_find_all_paths\<close>; here they are the parameters \<open>dst\<close>, \<open>sn\<close> and \<open>depth\<close>.
  \<open>dfs_loop\<close> is the \<^verbatim>\<open>for match in team.matches\<close> loop over the matches still to
  be visited.  \<^verbatim>\<open>path.pop()\<close> on an empty list raises \<^verbatim>\<open>IndexError\<close> and
  \<^verbatim>\<open>visited.remove\<close> of an absent name raises \<^verbatim>\<open>KeyError\<close>.
\<close>

text \<open>The condition under which the loop of \<^verbatim>\<open>dfs\<close> skips a match (\<^verbatim>\<open>continue\<close>).\<close>

definition skip_match :: "store \<Rightarrow> string \<Rightarrow> string set \<Rightarrow> bool \<Rightarrow> match_ref \<Rightarrow> team_ref \<Rightarrow> bool" where
  "skip_match h sn vis at_home m other_team \<longleftrightarrow>
     season (match_at h m) \<noteq> sn \<or>
     name (team_at h other_team) \<in> vis \<or>
     (\<not> at_home \<and> team_eq h (away_team (match_at h m)) other_team) \<or>
     (at_home \<and> team_eq h (home_team (match_at h m)) other_team)"

function dfs :: "store \<Rightarrow> team_ref \<Rightarrow> string \<Rightarrow> int \<Rightarrow> team_ref \<Rightarrow> bool \<Rightarrow> dfs_state \<Rightarrow> error + dfs_state"
  and dfs_loop :: "store \<Rightarrow> team_ref \<Rightarrow> string \<Rightarrow> int \<Rightarrow> team_ref \<Rightarrow> bool \<Rightarrow> match_ref list \<Rightarrow> dfs_state \<Rightarrow> error + dfs_state"
where
  "dfs h dst sn depth tm at_home st =
     (if int (length (path st)) > depth then Inr st
      else if path st \<noteq> [] \<and> team_eq h (away_team (match_at h (last (path st)))) dst
      then Inr (st\<lparr>paths := paths st @ [path st]\<rparr>)
      else (case dfs_loop h dst sn depth tm at_home (matches (team_at h tm))
                   (st\<lparr>visited := insert (name (team_at h tm)) (visited st)\<rparr>) of
              Inl e \<Rightarrow> Inl e
            | Inr st' \<Rightarrow>
                if name (team_at h tm) \<in> visited st'
                then Inr (st'\<lparr>visited := visited st' - {name (team_at h tm)}\<rparr>)
                else Inl KeyError))"
| "dfs_loop h dst sn depth tm at_home [] st = Inr st"
| "dfs_loop h dst sn depth tm at_home (m # ms) st =
     (let other_team = get_other_team h m tm in
      if skip_match h sn (visited st) at_home m other_team
      then dfs_loop h dst sn depth tm at_home ms st
      else (case dfs h dst sn depth other_team (\<not> at_home) (st\<lparr>path := path st @ [m]\<rparr>) of
              Inl e \<Rightarrow> Inl e
            | Inr st' \<Rightarrow>
                (case path st' of
                   [] \<Rightarrow> Inl IndexError
                 | _ # _ \<Rightarrow> dfs_loop h dst sn depth tm at_home ms (st'\<lparr>path := butlast (path st')\<rparr>))))"
  by pat_completeness auto

text \<open>
  The recursion is nested: the loop continues in the state that the recursive call
  returns.  Termination therefore needs to know that a call, when it returns, hands the
  path buffer back as it received it.
\<close>

lemma dfs_path_dom:
  "dfs_dfs_loop_dom (Inl (h, dst, sn, depth, tm, at_home, st)) \<Longrightarrow>
     dfs h dst sn depth tm at_home st = Inr st' \<Longrightarrow> path st' = path st"
  "dfs_dfs_loop_dom (Inr (h, dst, sn, depth, tm, at_home, ms, st)) \<Longrightarrow>
     dfs_loop h dst sn depth tm at_home ms st = Inr st' \<Longrightarrow> path st' = path st"
proof (induction h dst sn depth tm at_home st and h dst sn depth tm at_home ms st
    arbitrary: st' and st' rule: dfs_dfs_loop.pinduct)
  case (1 h dst sn depth tm at_home st)
  show ?case
  proof (cases "int (length (path st)) > depth")
    case True
    with 1(1,3) show ?thesis by (simp add: dfs.psimps)
  next
    case nd: False
    show ?thesis
    proof (cases "path st \<noteq> [] \<and> team_eq h (away_team (match_at h (last (path st)))) dst")
      case True
      with nd 1(1,3) show ?thesis by (auto simp add: dfs.psimps)
    next
      case nc: False
      let ?st0 = "st\<lparr>visited := insert (name (team_at h tm)) (visited st)\<rparr>"
      from 1(1,3) nd nc obtain st1 where
        l: "dfs_loop h dst sn depth tm at_home (matches (team_at h tm)) ?st0 = Inr st1"
        and r: "st' = st1\<lparr>visited := visited st1 - {name (team_at h tm)}\<rparr>"
        by (simp add: dfs.psimps split: sum.splits if_splits)
      from 1(2)[OF _ _ l] nd nc have "path st1 = path ?st0" by simp
      with r show ?thesis by simp
    qed
  qed
next
  case (2 h dst sn depth tm at_home st)
  then show ?case by (simp add: dfs_loop.psimps)
next
  case (3 h dst sn depth tm at_home m ms st)
  let ?o = "get_other_team h m tm"
  show ?case
  proof (cases "skip_match h sn (visited st) at_home m ?o")
    case True
    with 3(1,5) have "dfs_loop h dst sn depth tm at_home ms st = Inr st'"
      by (simp add: dfs_loop.psimps)
    from 3(2)[OF refl True this] show ?thesis .
  next
    case ns: False
    from 3(1,5) ns obtain st1 x xs where
      d: "dfs h dst sn depth ?o (\<not> at_home) (st\<lparr>path := path st @ [m]\<rparr>) = Inr st1"
      and p: "path st1 = x # xs"
      and l: "dfs_loop h dst sn depth tm at_home ms (st1\<lparr>path := butlast (path st1)\<rparr>) = Inr st'"
      by (simp add: dfs_loop.psimps split: sum.splits list.splits)
    from 3(3)[OF refl ns d] have e: "path st1 = path st @ [m]" by simp
    from 3(4)[OF refl ns d p l] have "path st' = butlast (path st1)" by simp
    with e show ?thesis by simp
  qed
qed

text \<open>
  The measure: the number of matches that may still be appended before the depth check
  fires, then the number of matches the loop has left.
\<close>

definition dfs_size ::
  "(store \<times> team_ref \<times> string \<times> int \<times> team_ref \<times> bool \<times> dfs_state) +
   (store \<times> team_ref \<times> string \<times> int \<times> team_ref \<times> bool \<times> match_ref list \<times> dfs_state)
   \<Rightarrow> nat \<times> nat" where
  "dfs_size x = (case x of
      Inl (h, dst, sn, depth, tm, at_home, st) \<Rightarrow>
        (if int (length (path st)) > depth then 0
         else 2 * nat (depth + 1 - int (length (path st))) + 2, 0)
    | Inr (h, dst, sn, depth, tm, at_home, ms, st) \<Rightarrow>
        (2 * nat (depth + 1 - int (length (path st))) + 1, length ms))"

termination dfs
proof (relation "inv_image (less_than <*lex*> less_than) dfs_size", goal_cases)
  case 1
  show ?case by (intro wf_inv_image wf_lex_prod wf_less_than)
next
  case (2 h dst sn depth tm at_home st)
  then show ?case by (simp add: dfs_size_def)
next
  case (3 h dst sn depth tm at_home m ms st x)
  then show ?case by (simp add: dfs_size_def)
next
  case (4 h dst sn depth tm at_home m ms st x)
  then show ?case by (auto simp add: dfs_size_def)
next
  case (5 h dst sn depth tm at_home m ms st x b x21 x22)
  from 5 have "path b = path st @ [m]" by (auto dest: dfs_path_dom(1))
  then show ?case by (simp add: dfs_size_def)
qed

declare dfs.simps [simp del]

text \<open>
  \<^verbatim>\<open>_find_all_paths\<close>: one call of \<^verbatim>\<open>dfs\<close> on the source team with an empty path buffer,
  no visited name and the flag set; the result is the list of recorded paths.
\<close>

definition find_all_paths :: "store \<Rightarrow> team_ref \<Rightarrow> team_ref \<Rightarrow> string \<Rightarrow> int \<Rightarrow> error + match_ref list list" where
  "find_all_paths h home_tm away_tm sn depth =
     (case dfs h away_tm sn depth home_tm True \<lparr>path = [], visited = {}, paths = []\<rparr> of
        Inl e \<Rightarrow> Inl e
      | Inr st \<Rightarrow> Inr (paths st))"

section \<open>Prediction (controllers/optimization.py)\<close>

text \<open>
  \<^verbatim>\<open>predict\<close> computes with Python floats and with \<^verbatim>\<open>numpy\<close> arrays of floats.  Neither
  the floating-point arithmetic nor \<^verbatim>\<open>numpy\<close> belongs to the repository, so the float
  operations that \<^verbatim>\<open>predict\<close> uses are parameters of the model, over any type \<open>'f\<close> of
  float values (with the two zeros, which compare equal, taken as one value):
  \<^item> \<open>fzero\<close> is the float \<^verbatim>\<open>0.0\<close>;
  \<^item> \<open>truediv\<close> is Python's true division \<^verbatim>\<open>/\<close> of two integers, for a divisor other
    than 0;
  \<^item> \<open>from_int\<close> is the conversion of an integer array element to a float;
  \<^item> \<open>fmul\<close> and \<open>fdiv\<close> are the product and the quotient of two floats;
  \<^item> \<open>fsum\<close> is \<^verbatim>\<open>numpy\<close>'s sum of the elements of a non-empty array of floats, in
    whatever order \<^verbatim>\<open>numpy\<close> adds them.
\<close>

record 'f float_ops =
  fzero :: 'f
  truediv :: "int \<Rightarrow> int \<Rightarrow> 'f"
  from_int :: "int \<Rightarrow> 'f"
  fmul :: "'f \<Rightarrow> 'f \<Rightarrow> 'f"
  fdiv :: "'f \<Rightarrow> 'f \<Rightarrow> 'f"
  fsum :: "'f list \<Rightarrow> 'f"

text \<open>The sum of an array; the sum of the empty array is \<^verbatim>\<open>0.0\<close>.\<close>

definition np_sum :: "'f float_ops \<Rightarrow> 'f list \<Rightarrow> 'f" where
  "np_sum ops xs = (if xs = [] then fzero ops else fsum ops xs)"

text \<open>
  \<^verbatim>\<open>numpy.average\<close> with weights raises \<^verbatim>\<open>TypeError\<close> when the two arrays differ in
  shape and \<^verbatim>\<open>ZeroDivisionError\<close> when the sum of the weights equals \<^verbatim>\<open>0.0\<close>; otherwise
  it multiplies the two arrays element by element, the integers converted to floats, and
  returns the sum of the products divided by the sum of the weights.
\<close>

definition np_average :: "'f float_ops \<Rightarrow> int list \<Rightarrow> 'f list \<Rightarrow> error + 'f" where
  "np_average ops a weights =
     (if length a \<noteq> length weights then Inl TypeError
      else let scl = np_sum ops weights in
        if scl = fzero ops then Inl ZeroDivisionError
        else Inr (fdiv ops (np_sum ops (map2 (\<lambda>x w. fmul ops (from_int ops x) w) a weights)) scl))"

definition PREDICTION_DEPTH :: int where
  "PREDICTION_DEPTH = 4"

text \<open>\<^verbatim>\<open>match.details[nm].full_time_goals\<close>: a missing key raises \<^verbatim>\<open>KeyError\<close>.\<close>

definition goals_of :: "Match \<Rightarrow> string \<Rightarrow> error + int" where
  "goals_of mt nm = (case details mt nm of None \<Rightarrow> Inl KeyError | Some d \<Rightarrow> Inr (full_time_goals d))"

text \<open>The inner loop \<^verbatim>\<open>for match in path\<close>, with the running \<^verbatim>\<open>total_diff\<close>.\<close>

fun total_diff_loop :: "store \<Rightarrow> match_ref list \<Rightarrow> int \<Rightarrow> error + int" where
  "total_diff_loop h [] total_diff = Inr total_diff"
| "total_diff_loop h (m # ms) total_diff =
     (case goals_of (match_at h m) (name (team_at h (home_team (match_at h m)))) of
        Inl e \<Rightarrow> Inl e
      | Inr home_team_goals \<Rightarrow>
          (case goals_of (match_at h m) (name (team_at h (away_team (match_at h m)))) of
             Inl e \<Rightarrow> Inl e
           | Inr away_team_goals \<Rightarrow>
               total_diff_loop h ms (total_diff + (home_team_goals - away_team_goals))))"

text \<open>
  The outer loop \<^verbatim>\<open>for path in paths\<close>, with the lists \<^verbatim>\<open>home_goal_diffs\<close> and
  \<^verbatim>\<open>weights\<close> built so far.  \<^verbatim>\<open>1 / len(path)\<close> raises \<^verbatim>\<open>ZeroDivisionError\<close> on an
  empty path.
\<close>

fun predict_loop :: "'f float_ops \<Rightarrow> store \<Rightarrow> match_ref list list \<Rightarrow> int list \<Rightarrow> 'f list \<Rightarrow> error + (int list \<times> 'f list)" where
  "predict_loop ops h [] home_goal_diffs weights = Inr (home_goal_diffs, weights)"
| "predict_loop ops h (p # ps) home_goal_diffs weights =
     (if length p = 0 then Inl ZeroDivisionError
      else (case total_diff_loop h p 0 of
              Inl e \<Rightarrow> Inl e
            | Inr total_diff \<Rightarrow>
                predict_loop ops h ps (home_goal_diffs @ [total_diff])
                  (weights @ [truediv ops 1 (int (length p))])))"

definition predict :: "'f float_ops \<Rightarrow> store \<Rightarrow> League \<Rightarrow> string \<Rightarrow> string \<Rightarrow> string \<Rightarrow> error + 'f" where
  "predict ops h league home away sn =
     (case get_team league home of
        Inl e \<Rightarrow> Inl e
      | Inr home_tm \<Rightarrow>
          (case get_team league away of
             Inl e \<Rightarrow> Inl e
           | Inr away_tm \<Rightarrow>
               (case find_all_paths h home_tm away_tm sn PREDICTION_DEPTH of
                  Inl e \<Rightarrow> Inl e
                | Inr ps \<Rightarrow>
                    (case predict_loop ops h ps [] [] of
                       Inl e \<Rightarrow> Inl e
                     | Inr (home_goal_diffs, weights) \<Rightarrow> np_average ops home_goal_diffs weights))))"

section \<open>Chains\<close>

text \<open>
  A path closes when it is not empty and the away side of its last match is the
  destination: the test under which \<^verbatim>\<open>dfs\<close> records the path.
\<close>

definition closes :: "store \<Rightarrow> team_ref \<Rightarrow> match_ref list \<Rightarrow> bool" where
  "closes h dst p \<longleftrightarrow> p \<noteq> [] \<and> team_eq h (away_team (match_at h (last p))) dst"

text \<open>
  \<open>trail\<close> holds of a sequence of matches that the loop of \<^verbatim>\<open>dfs\<close> may follow one after
  the other from team \<open>tm\<close>: each match is in the list of the team the search stands at
  and is not skipped, given the names visited so far and the current value of the flag.
\<close>

fun trail :: "store \<Rightarrow> string \<Rightarrow> team_ref \<Rightarrow> bool \<Rightarrow> string set \<Rightarrow> match_ref list \<Rightarrow> bool" where
  "trail h sn tm at_home vis [] = True"
| "trail h sn tm at_home vis (m # ms) =
     (m \<in> set (matches (team_at h tm)) \<and>
      \<not> skip_match h sn (insert (name (team_at h tm)) vis) at_home m (get_other_team h m tm) \<and>
      trail h sn (get_other_team h m tm) (\<not> at_home) (insert (name (team_at h tm)) vis) ms)"

text \<open>
  \<open>found\<close> describes a path recorded by a call of \<^verbatim>\<open>dfs\<close> entered with path buffer
  \<open>pth\<close> and visited names \<open>vis\<close>: it extends the buffer by a trail, it closes, it
  respects the depth bound, and no shorter extension of the buffer closes.
\<close>

definition found :: "store \<Rightarrow> team_ref \<Rightarrow> string \<Rightarrow> int \<Rightarrow> team_ref \<Rightarrow> bool \<Rightarrow> match_ref list \<Rightarrow> string set \<Rightarrow> match_ref list \<Rightarrow> bool" where
  "found h dst sn depth tm at_home pth vis p \<longleftrightarrow>
     take (length pth) p = pth \<and>
     trail h sn tm at_home vis (drop (length pth) p) \<and>
     closes h dst p \<and> int (length p) \<le> depth \<and>
     (\<forall>n. length pth \<le> n \<and> n < length p \<longrightarrow> \<not> closes h dst (take n p))"

text \<open>The teams a chain travels through, starting from \<open>tm\<close>.\<close>

fun hops :: "store \<Rightarrow> team_ref \<Rightarrow> match_ref list \<Rightarrow> team_ref list" where
  "hops h tm [] = [tm]"
| "hops h tm (m # ms) = tm # hops h (get_other_team h m tm) ms"

text \<open>
  The representation invariant of \<^verbatim>\<open>Team\<close> (models.py): every match in a team's list
  has that team as its home or its away side.
\<close>

definition team_invariant :: "store \<Rightarrow> team_ref \<Rightarrow> bool" where
  "team_invariant h t \<longleftrightarrow>
     (\<forall>m\<in>set (matches (team_at h t)).
        team_eq h t (home_team (match_at h m)) \<or> team_eq h t (away_team (match_at h m)))"

text \<open>
  The representation invariant of \<^verbatim>\<open>Match\<close> (models.py) on the details mapping: both
  participants' names are keys.
\<close>

definition match_invariant :: "store \<Rightarrow> match_ref \<Rightarrow> bool" where
  "match_invariant h m \<longleftrightarrow>
     details (match_at h m) (name (team_at h (home_team (match_at h m)))) \<noteq> None \<and>
     details (match_at h m) (name (team_at h (away_team (match_at h m)))) \<noteq> None"

text \<open>The names of the two sides of a match.\<close>

definition participants :: "store \<Rightarrow> match_ref \<Rightarrow> string set" where
  "participants h m =
     {name (team_at h (home_team (match_at h m))), name (team_at h (away_team (match_at h m)))}"

subsection \<open>The prediction as the specification words it\<close>

text \<open>
  The signal of a chain is the sum over its matches of the home side's full-time goals
  minus the away side's; its weight is one over its number of matches; the prediction
  is the sum of weight times signal divided by the sum of the weights.  Read as it
  stands, this is a real number.
\<close>

definition spec_signal :: "store \<Rightarrow> match_ref list \<Rightarrow> int" where
  "spec_signal h p =
     (\<Sum>m\<leftarrow>p. full_time_goals (the (details (match_at h m) (name (team_at h (home_team (match_at h m)))))) -
             full_time_goals (the (details (match_at h m) (name (team_at h (away_team (match_at h m)))))))"

definition spec_weight :: "match_ref list \<Rightarrow> real" where
  "spec_weight p = 1 / real (length p)"

definition spec_weighted_mean :: "store \<Rightarrow> match_ref list list \<Rightarrow> real" where
  "spec_weighted_mean h ps =
     (\<Sum>p\<leftarrow>ps. spec_weight p * real_of_int (spec_signal h p)) / (\<Sum>p\<leftarrow>ps. spec_weight p)"

text \<open>
  The same formula evaluated with the float operations: the weight of a chain is the
  float quotient of 1 by its number of matches, a product is the float product of the
  signal, converted to a float, and the weight, and the mean is the float quotient of the
  array sum of the products by the array sum of the weights.
\<close>

definition float_weight :: "'f float_ops \<Rightarrow> match_ref list \<Rightarrow> 'f" where
  "float_weight ops p = truediv ops 1 (int (length p))"

definition float_weighted_mean :: "'f float_ops \<Rightarrow> store \<Rightarrow> match_ref list list \<Rightarrow> 'f" where
  "float_weighted_mean ops h ps =
     fdiv ops
       (np_sum ops (map (\<lambda>p. fmul ops (from_int ops (spec_signal h p)) (float_weight ops p)) ps))
       (np_sum ops (map (float_weight ops) ps))"

text \<open>
  What the prediction needs of the float operations, for some notion \<open>pos\<close> of a float
  greater than \<^verbatim>\<open>0.0\<close>: \<^verbatim>\<open>0.0\<close> is not positive, \<^verbatim>\<open>1 / n\<close> is positive for a number of
  matches \<open>n\<close> from 1 to the prediction depth, and the sum of a non-empty array of
  positive floats is positive.  Floating-point arithmetic that rounds to nearest has
  these properties.
\<close>

definition float_laws :: "'f float_ops \<Rightarrow> bool" where
  "float_laws ops \<longleftrightarrow>
     (\<exists>pos. \<not> pos (fzero ops) \<and>
        (\<forall>n. 0 < n \<and> n \<le> PREDICTION_DEPTH \<longrightarrow> pos (truediv ops 1 n)) \<and>
        (\<forall>xs. xs \<noteq> [] \<and> (\<forall>x\<in>set xs. pos x) \<longrightarrow> pos (fsum ops xs)))"

subsection \<open>Double precision\<close>

text \<open>
  The double-precision floats of IEEE 754, as the real numbers they stand for, with
  rounding to nearest, ties to even: \<open>round_to p\<close> rounds a real to \<open>p + 1\<close> significant
  bits, and \<open>binary64\<close> is the rounding to the 53 bits of a double.  The exponent is not
  bounded here, so \<open>binary64\<close> is the rounding of a double operation for results in the
  range of the normal doubles, which is where the examples below stay.
\<close>

definition round_half_even :: "real \<Rightarrow> int" where
  "round_half_even q =
     (let f = \<lfloor>q\<rfloor> in
      if q - of_int f < 1 / 2 then f
      else if q - of_int f > 1 / 2 then f + 1
      else if even f then f else f + 1)"

definition round_to :: "nat \<Rightarrow> real \<Rightarrow> real" where
  "round_to p x =
     (if x = 0 then 0
      else let e = \<lfloor>log 2 \<bar>x\<bar>\<rfloor> - int p in
        of_int (round_half_even (x / 2 powr of_int e)) * 2 powr of_int e)"

definition binary64 :: "real \<Rightarrow> real" where
  "binary64 x = round_to 52 x"

text \<open>
  The float operations on doubles: every operation returns the rounded exact result.
  The array sum adds the elements from left to right, starting from \<^verbatim>\<open>0.0\<close>.  For the
  three weights of the example below the sum is the same double when the first weight
  is added to the sum of the other two, and the sum of the three products is exact.
\<close>

definition double_ops :: "real float_ops" where
  "double_ops = \<lparr>
     fzero = 0,
     truediv = (\<lambda>a b. binary64 (real_of_int a / real_of_int b)),
     from_int = (\<lambda>x. binary64 (real_of_int x)),
     fmul = (\<lambda>x y. binary64 (x * y)),
     fdiv = (\<lambda>x y. binary64 (x / y)),
     fsum = foldl (\<lambda>acc x. binary64 (acc + x)) 0\<rparr>"

subsection \<open>Example leagues\<close>

definition mk_details :: "team_ref \<Rightarrow> int \<Rightarrow> MatchDetails" where
  "mk_details t g = \<lparr>team = t, fouls = 0, shots = 0, shots_on_target = 0, red_cards = 0,
     yellow_cards = 0, half_time_goals = 0, full_time_goals = g, referee = ''R''\<rparr>"

definition mk_match :: "string \<Rightarrow> int \<Rightarrow> team_ref \<Rightarrow> string \<Rightarrow> int \<Rightarrow> team_ref \<Rightarrow> string \<Rightarrow> int \<Rightarrow> Match" where
  "mk_match sn k ht hn hg awt an ag = \<lparr>season = sn, home_team = ht, away_team = awt, order = k,
     details = [hn \<mapsto> mk_details ht hg, an \<mapsto> mk_details awt ag],
     result = (if hg > ag then Some ht else if ag > hg then Some awt else None)\<rparr>"

definition no_team :: Team where
  "no_team = \<lparr>name = [], matches = [], seasons = {}\<rparr>"

definition no_match :: Match where
  "no_match = \<lparr>season = [], home_team = 0, away_team = 0, order = 1, details = Map.empty, result = None\<rparr>"

text \<open>
  Season 2010-11 with teams A, B and C and one match, A (home) 3 - 1 B (away).
\<close>

definition league1_store :: store where
  "league1_store = \<lparr>
     team_at = (\<lambda>_. no_team)
       (0 := \<lparr>name = ''A'', matches = [0], seasons = {''2010-11''}\<rparr>,
        1 := \<lparr>name = ''B'', matches = [0], seasons = {''2010-11''}\<rparr>,
        2 := \<lparr>name = ''C'', matches = [], seasons = {''2010-11''}\<rparr>),
     match_at = (\<lambda>_. no_match)
       (0 := mk_match ''2010-11'' 1 0 ''A'' 3 1 ''B'' 1)\<rparr>"

definition league1 :: League where
  "league1 = \<lparr>teams = [''A'' \<mapsto> 0, ''B'' \<mapsto> 1, ''C'' \<mapsto> 2]\<rparr>"

text \<open>
  Four teams A, X, C and Z.  Z is reached from A through X and then C, through C and
  then X, and by a direct match.  The home side wins every match, 1 - 0 in the matches
  of the two longer chains and 3 - 0 in the direct match, so that the signal of each of
  the three chains is 3.
\<close>

definition league2_store :: store where
  "league2_store = \<lparr>
     team_at = (\<lambda>_. no_team)
       (0 := \<lparr>name = ''A'', matches = [0, 3, 6], seasons = {''2010-11''}\<rparr>,
        1 := \<lparr>name = ''X'', matches = [0, 1, 4, 5], seasons = {''2010-11''}\<rparr>,
        2 := \<lparr>name = ''C'', matches = [1, 2, 3, 4], seasons = {''2010-11''}\<rparr>,
        3 := \<lparr>name = ''Z'', matches = [2, 5, 6], seasons = {''2010-11''}\<rparr>),
     match_at = (\<lambda>_. no_match)
       (0 := mk_match ''2010-11'' 1 0 ''A'' 1 1 ''X'' 0,
        1 := mk_match ''2010-11'' 2 2 ''C'' 1 1 ''X'' 0,
        2 := mk_match ''2010-11'' 3 2 ''C'' 1 3 ''Z'' 0,
        3 := mk_match ''2010-11'' 4 0 ''A'' 1 2 ''C'' 0,
        4 := mk_match ''2010-11'' 5 1 ''X'' 1 2 ''C'' 0,
        5 := mk_match ''2010-11'' 6 1 ''X'' 1 3 ''Z'' 0,
        6 := mk_match ''2010-11'' 7 0 ''A'' 3 3 ''Z'' 0)\<rparr>"

definition league2 :: League where
  "league2 = \<lparr>teams = [''A'' \<mapsto> 0, ''X'' \<mapsto> 1, ''C'' \<mapsto> 2, ''Z'' \<mapsto> 3]\<rparr>"

text \<open>
  A store that breaks the invariant of \<^verbatim>\<open>Team\<close>: the list of B holds the match of C
  against A, in which B does not play.
\<close>

definition league3_store :: store where
  "league3_store = \<lparr>
     team_at = (\<lambda>_. no_team)
       (0 := \<lparr>name = ''A'', matches = [0, 1], seasons = {''2010-11''}\<rparr>,
        1 := \<lparr>name = ''B'', matches = [0, 1], seasons = {''2010-11''}\<rparr>,
        2 := \<lparr>name = ''C'', matches = [1], seasons = {''2010-11''}\<rparr>),
     match_at = (\<lambda>_. no_match)
       (0 := mk_match ''2010-11'' 1 0 ''A'' 1 1 ''B'' 0,
        1 := mk_match ''2010-11'' 2 2 ''C'' 1 0 ''A'' 0)\<rparr>"

lemmas league_defs =
  mk_details_def mk_match_def no_team_def no_match_def
  league1_store_def league1_def league2_store_def league2_def

lemmas run_defs =
  find_all_paths_def dfs.simps skip_match_def get_other_team_def team_eq_def

section \<open>What a call of dfs records\<close>

lemma found_here:
  assumes "closes h dst pth" "int (length pth) \<le> depth"
  shows "found h dst sn depth tm at_home pth vis pth"
  using assms by (simp add: found_def)

lemma found_step:
  assumes f: "found h dst sn depth (get_other_team h m tm) (\<not> at_home)
            (pth @ [m]) (insert (name (team_at h tm)) vis) p"
    and m: "m \<in> set (matches (team_at h tm))"
    and ns: "\<not> skip_match h sn (insert (name (team_at h tm)) vis) at_home m (get_other_team h m tm)"
    and nc: "\<not> closes h dst pth"
  shows "found h dst sn depth tm at_home pth vis p"
proof -
  let ?k = "length pth"
  from f have tk: "take (Suc ?k) p = pth @ [m]"
    and tr: "trail h sn (get_other_team h m tm) (\<not> at_home) (insert (name (team_at h tm)) vis) (drop (Suc ?k) p)"
    and cl: "closes h dst p" and le: "int (length p) \<le> depth"
    and pre: "\<forall>n. Suc ?k \<le> n \<and> n < length p \<longrightarrow> \<not> closes h dst (take n p)"
    by (simp_all add: found_def)
  from tk have lp: "?k < length p"
    by (metis length_append_singleton length_take lessI min_less_iff_conj)
  from tk have t1: "take ?k p = pth"
    by (metis append1_eq_conv butlast_snoc butlast_take diff_Suc_1 le_SucI lp less_imp_le_nat take_Suc_conv_app_nth)
  from tk lp have pk: "p ! ?k = m"
    by (metis nth_append_length nth_take lessI)
  from lp pk have d: "drop ?k p = m # drop (Suc ?k) p"
    by (metis Cons_nth_drop_Suc)
  have "\<not> closes h dst (take n p)" if "?k \<le> n" "n < length p" for n
  proof (cases "n = ?k")
    case True
    with t1 nc show ?thesis by simp
  next
    case False
    with that pre show ?thesis by simp
  qed
  with t1 d tr m ns cl le show ?thesis
    by (simp add: found_def)
qed

lemma dfs_unfold:
  "dfs h dst sn depth tm at_home st =
     (if int (length (path st)) > depth then Inr st
      else if closes h dst (path st) then Inr (st\<lparr>paths := paths st @ [path st]\<rparr>)
      else (case dfs_loop h dst sn depth tm at_home (matches (team_at h tm))
                   (st\<lparr>visited := insert (name (team_at h tm)) (visited st)\<rparr>) of
              Inl e \<Rightarrow> Inl e
            | Inr st' \<Rightarrow>
                if name (team_at h tm) \<in> visited st'
                then Inr (st'\<lparr>visited := visited st' - {name (team_at h tm)}\<rparr>)
                else Inl KeyError))"
  unfolding closes_def by (rule dfs.simps)

lemma dfs_found:
  "name (team_at h tm) \<notin> visited st \<Longrightarrow>
     \<exists>new. dfs h dst sn depth tm at_home st = Inr (st\<lparr>paths := paths st @ new\<rparr>) \<and>
       (\<forall>p\<in>set new. found h dst sn depth tm at_home (path st) (visited st) p)"
  "name (team_at h tm) \<in> visited st \<Longrightarrow>
     \<exists>new. dfs_loop h dst sn depth tm at_home ms st = Inr (st\<lparr>paths := paths st @ new\<rparr>) \<and>
       (\<forall>p\<in>set new. \<exists>m\<in>set ms.
          \<not> skip_match h sn (visited st) at_home m (get_other_team h m tm) \<and>
          found h dst sn depth (get_other_team h m tm) (\<not> at_home) (path st @ [m]) (visited st) p)"
proof (induction h dst sn depth tm at_home st and h dst sn depth tm at_home ms st
    rule: dfs_dfs_loop.induct)
  case (1 h dst sn depth tm at_home st)
  show ?case
  proof (cases "int (length (path st)) > depth")
    case True
    then have "dfs h dst sn depth tm at_home st = Inr (st\<lparr>paths := paths st @ []\<rparr>)"
      by (simp add: dfs_unfold)
    then show ?thesis by (intro exI[of _ "[]"]) simp
  next
    case nd: False
    show ?thesis
    proof (cases "closes h dst (path st)")
      case True
      with nd have "dfs h dst sn depth tm at_home st = Inr (st\<lparr>paths := paths st @ [path st]\<rparr>)"
        by (simp add: dfs_unfold)
      moreover from True nd have "found h dst sn depth tm at_home (path st) (visited st) (path st)"
        by (intro found_here) simp_all
      ultimately show ?thesis by (intro exI[of _ "[path st]"]) simp
    next
      case nc: False
      let ?nm = "name (team_at h tm)"
      let ?st0 = "st\<lparr>visited := insert ?nm (visited st)\<rparr>"
      from nc have nc': "\<not> (path st \<noteq> [] \<and> team_eq h (away_team (match_at h (last (path st)))) dst)"
        by (simp add: closes_def)
      have "?nm \<in> visited ?st0" by simp
      from 1(1)[OF nd nc' this] obtain new where
        l: "dfs_loop h dst sn depth tm at_home (matches (team_at h tm)) ?st0 = Inr (?st0\<lparr>paths := paths ?st0 @ new\<rparr>)"
        and f: "\<forall>p\<in>set new. \<exists>m\<in>set (matches (team_at h tm)).
          \<not> skip_match h sn (visited ?st0) at_home m (get_other_team h m tm) \<and>
          found h dst sn depth (get_other_team h m tm) (\<not> at_home) (path ?st0 @ [m]) (visited ?st0) p"
        by blast
      from 1(2) have "(?st0\<lparr>paths := paths ?st0 @ new\<rparr>)\<lparr>visited := visited (?st0\<lparr>paths := paths ?st0 @ new\<rparr>) - {?nm}\<rparr>
           = st\<lparr>paths := paths st @ new\<rparr>"
        by simp
      with l nd nc have r: "dfs h dst sn depth tm at_home st = Inr (st\<lparr>paths := paths st @ new\<rparr>)"
        by (simp add: dfs_unfold)
      have "found h dst sn depth tm at_home (path st) (visited st) p" if "p \<in> set new" for p
      proof -
        from f that obtain m where m: "m \<in> set (matches (team_at h tm))"
          and ns: "\<not> skip_match h sn (insert ?nm (visited st)) at_home m (get_other_team h m tm)"
          and fd: "found h dst sn depth (get_other_team h m tm) (\<not> at_home) (path st @ [m]) (insert ?nm (visited st)) p"
          by auto
        from found_step[OF fd m ns nc] show ?thesis .
      qed
      with r show ?thesis by blast
    qed
  qed
next
  case (2 h dst sn depth tm at_home st)
  show ?case by (intro exI[of _ "[]"]) simp
next
  case (3 h dst sn depth tm at_home m ms st)
  let ?o = "get_other_team h m tm"
  show ?case
  proof (cases "skip_match h sn (visited st) at_home m ?o")
    case True
    from 3(1)[OF refl True 3(4)] obtain new where
      l: "dfs_loop h dst sn depth tm at_home ms st = Inr (st\<lparr>paths := paths st @ new\<rparr>)"
      and f: "\<forall>p\<in>set new. \<exists>m\<in>set ms.
          \<not> skip_match h sn (visited st) at_home m (get_other_team h m tm) \<and>
          found h dst sn depth (get_other_team h m tm) (\<not> at_home) (path st @ [m]) (visited st) p"
      by blast
    from True l have "dfs_loop h dst sn depth tm at_home (m # ms) st = Inr (st\<lparr>paths := paths st @ new\<rparr>)"
      by simp
    with f show ?thesis by (intro exI[of _ new]) auto
  next
    case ns: False
    let ?st1 = "st\<lparr>path := path st @ [m]\<rparr>"
    from ns have "name (team_at h ?o) \<notin> visited ?st1" by (simp add: skip_match_def)
    from 3(2)[OF refl ns this] obtain new1 where
      d: "dfs h dst sn depth ?o (\<not> at_home) ?st1 = Inr (?st1\<lparr>paths := paths ?st1 @ new1\<rparr>)"
      and f1: "\<forall>p\<in>set new1. found h dst sn depth ?o (\<not> at_home) (path ?st1) (visited ?st1) p"
      by blast
    let ?b = "?st1\<lparr>paths := paths ?st1 @ new1\<rparr>"
    let ?st2 = "st\<lparr>paths := paths st @ new1\<rparr>"
    have pb: "path ?b = path st @ [m]" by simp
    then obtain x xs where pc: "path ?b = x # xs" by (cases "path ?b") simp_all
    have pop: "?b\<lparr>path := butlast (path ?b)\<rparr> = ?st2" by simp
    from 3(4) have "name (team_at h tm) \<in> visited (?b\<lparr>path := butlast (path ?b)\<rparr>)" by simp
    from 3(3)[OF refl ns d pc this] obtain new2 where
      l: "dfs_loop h dst sn depth tm at_home ms ?st2 = Inr (?st2\<lparr>paths := paths ?st2 @ new2\<rparr>)"
      and f2: "\<forall>p\<in>set new2. \<exists>m\<in>set ms.
          \<not> skip_match h sn (visited ?st2) at_home m (get_other_team h m tm) \<and>
          found h dst sn depth (get_other_team h m tm) (\<not> at_home) (path ?st2 @ [m]) (visited ?st2) p"
      unfolding pop by blast
    from ns d pc pop l
    have r: "dfs_loop h dst sn depth tm at_home (m # ms) st = Inr (st\<lparr>paths := paths st @ (new1 @ new2)\<rparr>)"
      by (simp add: Let_def)
    have "\<exists>m'\<in>set (m # ms).
          \<not> skip_match h sn (visited st) at_home m' (get_other_team h m' tm) \<and>
          found h dst sn depth (get_other_team h m' tm) (\<not> at_home) (path st @ [m']) (visited st) p"
      if "p \<in> set (new1 @ new2)" for p
    proof (cases "p \<in> set new1")
      case True
      with f1 ns show ?thesis by auto
    next
      case False
      with that have "p \<in> set new2" by simp
      with f2 show ?thesis by auto
    qed
    with r show ?thesis by blast
  qed
qed

lemma find_all_paths_found:
  "\<exists>ps. find_all_paths h home_tm away_tm sn depth = Inr ps \<and>
     (\<forall>p\<in>set ps. found h away_tm sn depth home_tm True [] {} p)"
proof -
  let ?st = "\<lparr>path = [], visited = {}, paths = []\<rparr>"
  have "name (team_at h home_tm) \<notin> visited ?st" by simp
  from dfs_found(1)[OF this, of away_tm sn depth True] obtain new where
    "dfs h away_tm sn depth home_tm True ?st = Inr (?st\<lparr>paths := paths ?st @ new\<rparr>)"
    "\<forall>p\<in>set new. found h away_tm sn depth home_tm True [] {} p"
    by auto
  then show ?thesis by (simp add: find_all_paths_def)
qed

lemma find_all_paths_foundD:
  assumes "find_all_paths h home_tm away_tm sn depth = Inr ps" "p \<in> set ps"
  shows "found h away_tm sn depth home_tm True [] {} p"
  using find_all_paths_found[of h home_tm away_tm sn depth] assms by auto

lemma league1_paths: "find_all_paths league1_store 0 1 ''2010-11'' 1 = Inr [[0]]"
  by (simp add: run_defs league_defs)

lemma league2_paths: "find_all_paths league2_store 0 3 ''2010-11'' 4 = Inr [[0, 1, 2], [3, 4, 5], [6]]"
  by (simp add: run_defs league_defs)

section \<open>Properties of the enumerated chains\<close>

lemma trail_season:
  "trail h sn tm at_home vis ms \<Longrightarrow> m \<in> set ms \<Longrightarrow> season (match_at h m) = sn"
  by (induction ms arbitrary: tm at_home vis) (auto simp: skip_match_def)

lemma predict_unfold:
  assumes "get_team league home = Inr ht" "get_team league away = Inr awt"
    and "find_all_paths h ht awt sn PREDICTION_DEPTH = Inr ps"
  shows "predict ops h league home away sn =
     (case predict_loop ops h ps [] [] of
        Inl e \<Rightarrow> Inl e
      | Inr (home_goal_diffs, weights) \<Rightarrow> np_average ops home_goal_diffs weights)"
  using assms by (simp add: predict_def)

text \<open>
  Claim C5.  No chain returned by \<^verbatim>\<open>_find_all_paths\<close> has more matches than the depth
  bound it was called with; \<^verbatim>\<open>predict\<close> calls it with the bound 4 and computes its
  result from the chains returned, each of which has at most 4 matches.
\<close>

theorem depth_bound:
  "(\<forall>ps. find_all_paths h home_tm away_tm sn depth = Inr ps \<longrightarrow>
      (\<forall>p\<in>set ps. int (length p) \<le> depth)) \<and>
   (\<forall>ht awt. get_team league home = Inr ht \<and> get_team league away = Inr awt \<longrightarrow>
      (\<exists>ps. find_all_paths h ht awt sn 4 = Inr ps \<and> (\<forall>p\<in>set ps. length p \<le> 4) \<and>
         predict ops h league home away sn =
           (case predict_loop ops h ps [] [] of
              Inl e \<Rightarrow> Inl e
            | Inr (home_goal_diffs, weights) \<Rightarrow> np_average ops home_goal_diffs weights)))"
proof (intro conjI allI impI)
  fix ps assume "find_all_paths h home_tm away_tm sn depth = Inr ps"
  then show "\<forall>p\<in>set ps. int (length p) \<le> depth"
    by (auto dest!: find_all_paths_foundD simp: found_def)
next
  fix ht awt
  assume g: "get_team league home = Inr ht \<and> get_team league away = Inr awt"
  from find_all_paths_found[of h ht awt sn 4] obtain ps where
    ps: "find_all_paths h ht awt sn 4 = Inr ps"
    and f: "\<forall>p\<in>set ps. found h awt sn 4 ht True [] {} p"
    by blast
  from f have "\<forall>p\<in>set ps. length p \<le> 4" by (auto simp: found_def)
  moreover from g ps have "predict ops h league home away sn =
     (case predict_loop ops h ps [] [] of
        Inl e \<Rightarrow> Inl e
      | Inr (home_goal_diffs, weights) \<Rightarrow> np_average ops home_goal_diffs weights)"
    by (intro predict_unfold[where ht = ht and awt = awt]) (simp_all add: PREDICTION_DEPTH_def)
  ultimately show "\<exists>ps. find_all_paths h ht awt sn 4 = Inr ps \<and> (\<forall>p\<in>set ps. length p \<le> 4) \<and>
         predict ops h league home away sn =
           (case predict_loop ops h ps [] [] of
              Inl e \<Rightarrow> Inl e
            | Inr (home_goal_diffs, weights) \<Rightarrow> np_average ops home_goal_diffs weights)"
    using ps by blast
qed

theorem depth_bound_witness:
  "find_all_paths league2_store 0 3 ''2010-11'' 4 = Inr [[0, 1, 2], [3, 4, 5], [6]] \<and>
   int (length [0, 1, 2 :: nat]) \<le> 4 \<and> int (length [3, 4, 5 :: nat]) \<le> 4 \<and> int (length [6 :: nat]) \<le> 4 \<and>
   get_team league2 ''A'' = Inr 0 \<and> get_team league2 ''Z'' = Inr 3 \<and>
   predict double_ops league2_store league2 ''A'' ''Z'' ''2010-11'' =
     (case predict_loop double_ops league2_store [[0, 1, 2], [3, 4, 5], [6]] [] [] of
        Inl e \<Rightarrow> Inl e
      | Inr (home_goal_diffs, weights) \<Rightarrow> np_average double_ops home_goal_diffs weights)"
proof -
  have g: "get_team league2 ''A'' = Inr 0 \<and> get_team league2 ''Z'' = Inr 3"
    by (simp add: get_team_def league2_def)
  note d = depth_bound[of league2_store 0 3 "''2010-11''" 4 league2 "''A''" "''Z''" double_ops]
  from d league2_paths have "\<forall>p\<in>set [[0, 1, 2], [3, 4, 5], [6 :: nat]]. int (length p) \<le> 4"
    by blast
  then have l: "int (length [0, 1, 2 :: nat]) \<le> 4" "int (length [3, 4, 5 :: nat]) \<le> 4"
    "int (length [6 :: nat]) \<le> 4"
    by simp_all
  from d g obtain ps where "find_all_paths league2_store 0 3 ''2010-11'' 4 = Inr ps"
    and p: "predict double_ops league2_store league2 ''A'' ''Z'' ''2010-11'' =
       (case predict_loop double_ops league2_store ps [] [] of
          Inl e \<Rightarrow> Inl e
        | Inr (home_goal_diffs, weights) \<Rightarrow> np_average double_ops home_goal_diffs weights)"
    by blast
  with league2_paths have "ps = [[0, 1, 2], [3, 4, 5], [6]]" by simp
  with p l g league2_paths show ?thesis by blast
qed

text \<open>
  Claim C7.  Every chain returned by \<^verbatim>\<open>_find_all_paths\<close> has at least one match, and the
  away side of its last match equals the destination team (\<^verbatim>\<open>==\<close> on teams).
\<close>

theorem chain_ends_at_destination:
  "find_all_paths h home_tm away_tm sn depth = Inr ps \<Longrightarrow> p \<in> set ps \<Longrightarrow>
     length p \<ge> 1 \<and> team_eq h (away_team (match_at h (last p))) away_tm"
proof -
  assume "find_all_paths h home_tm away_tm sn depth = Inr ps" "p \<in> set ps"
  then have "closes h away_tm p"
    by (auto dest: find_all_paths_foundD simp: found_def)
  then show ?thesis by (cases p) (simp_all add: closes_def)
qed

theorem chain_ends_at_destination_witness:
  "find_all_paths league2_store 0 3 ''2010-11'' 4 = Inr [[0, 1, 2], [3, 4, 5], [6]] \<and>
   [3, 4, 5] \<in> set [[0, 1, 2], [3, 4, 5], [6 :: nat]] \<and>
   length [3, 4, 5 :: nat] \<ge> 1 \<and>
   team_eq league2_store (away_team (match_at league2_store (last [3, 4, 5]))) 3"
  using chain_ends_at_destination[OF league2_paths, of "[3, 4, 5]"] league2_paths by simp

text \<open>
  Claim C9.  Every match of every chain returned by \<^verbatim>\<open>_find_all_paths\<close> has exactly the
  season string that was asked for.
\<close>

theorem chain_in_season:
  "find_all_paths h home_tm away_tm sn depth = Inr ps \<Longrightarrow> p \<in> set ps \<Longrightarrow> m \<in> set p \<Longrightarrow>
     season (match_at h m) = sn"
  by (auto dest!: find_all_paths_foundD simp: found_def dest: trail_season)

theorem chain_in_season_witness:
  "find_all_paths league2_store 0 3 ''2010-11'' 4 = Inr [[0, 1, 2], [3, 4, 5], [6]] \<and>
   [0, 1, 2] \<in> set [[0, 1, 2], [3, 4, 5], [6 :: nat]] \<and> 1 \<in> set [0, 1, 2 :: nat] \<and>
   season (match_at league2_store 1) = ''2010-11''"
  using chain_in_season[OF league2_paths, of "[0, 1, 2]" 1] league2_paths by simp

text \<open>
  Claim C3 says that a depth bound of 0 or less makes \<^verbatim>\<open>_find_all_paths\<close> fail.  It does
  not fail: with depth 0 and with depth -1 the call returns normally, with no chain.
\<close>

theorem invalid_depth_counterexample:
  "find_all_paths league1_store 0 1 ''2010-11'' 0 = Inr [] \<and>
   find_all_paths league1_store 0 1 ''2010-11'' (- 1) = Inr []"
  by (simp add: run_defs league_defs)

text \<open>
  Claim C3, amended.  For every depth bound of 0 or less, \<^verbatim>\<open>_find_all_paths\<close> returns
  normally and its result is the empty list; no error is raised.
\<close>

theorem nonpositive_depth_empty:
  "depth \<le> 0 \<Longrightarrow> find_all_paths h home_tm away_tm sn depth = Inr []"
proof -
  assume d: "depth \<le> 0"
  from find_all_paths_found[of h home_tm away_tm sn depth] obtain ps where
    ps: "find_all_paths h home_tm away_tm sn depth = Inr ps"
    and f: "\<forall>p\<in>set ps. found h away_tm sn depth home_tm True [] {} p"
    by blast
  have "ps = []"
  proof (cases ps)
    case (Cons p qs)
    with f have "found h away_tm sn depth home_tm True [] {} p" by simp
    then have "p \<noteq> []" "int (length p) \<le> depth" by (simp_all add: found_def closes_def)
    with d show ?thesis by (cases p) simp_all
  qed simp
  with ps show ?thesis by simp
qed

theorem nonpositive_depth_empty_witness:
  "(0::int) \<le> 0 \<and> find_all_paths league1_store 0 1 ''2010-11'' 0 = Inr []"
  using nonpositive_depth_empty[of 0 league1_store 0 1 "''2010-11''"] by simp

section \<open>Properties of the prediction\<close>

lemma total_diff_loop_signal:
  "\<forall>m\<in>set p. match_invariant h m \<Longrightarrow>
     total_diff_loop h p total_diff = Inr (total_diff + spec_signal h p)"
proof (induction p arbitrary: total_diff)
  case Nil
  show ?case by (simp add: spec_signal_def)
next
  case (Cons m p)
  from Cons.prems have "match_invariant h m" by simp
  then obtain dh da where
    "details (match_at h m) (name (team_at h (home_team (match_at h m)))) = Some dh"
    "details (match_at h m) (name (team_at h (away_team (match_at h m)))) = Some da"
    by (auto simp: match_invariant_def)
  moreover from Cons.prems have "\<forall>m\<in>set p. match_invariant h m" by simp
  ultimately show ?case
    using Cons.IH by (simp add: goals_of_def spec_signal_def)
qed

lemma predict_loop_lists:
  "\<forall>p\<in>set ps. p \<noteq> [] \<and> (\<forall>m\<in>set p. match_invariant h m) \<Longrightarrow>
     predict_loop ops h ps home_goal_diffs weights =
       Inr (home_goal_diffs @ map (spec_signal h) ps, weights @ map (float_weight ops) ps)"
proof (induction ps arbitrary: home_goal_diffs weights)
  case Nil
  show ?case by simp
next
  case (Cons p ps)
  from Cons.prems have "p \<noteq> []" "\<forall>m\<in>set p. match_invariant h m" by simp_all
  moreover from Cons.prems
  have "\<forall>p\<in>set ps. p \<noteq> [] \<and> (\<forall>m\<in>set p. match_invariant h m)" by simp
  ultimately show ?case
    using Cons.IH by (simp add: total_diff_loop_signal float_weight_def)
qed

lemma map2_maps:
  "map2 f (map g xs) (map k xs) = map (\<lambda>x. f (g x) (k x)) xs"
  by (induction xs) simp_all

text \<open>
  Under the laws of the float operations the weights of chains of one to four matches
  do not sum to \<^verbatim>\<open>0.0\<close>.
\<close>

lemma sum_weights_nonzero:
  assumes laws: "float_laws ops"
    and ne: "ps \<noteq> []"
    and len: "\<forall>p\<in>set ps. p \<noteq> [] \<and> int (length p) \<le> PREDICTION_DEPTH"
  shows "np_sum ops (map (float_weight ops) ps) \<noteq> fzero ops"
proof -
  from laws obtain pos where z: "\<not> pos (fzero ops)"
    and w: "\<forall>n. 0 < n \<and> n \<le> PREDICTION_DEPTH \<longrightarrow> pos (truediv ops 1 n)"
    and s: "\<forall>xs. xs \<noteq> [] \<and> (\<forall>x\<in>set xs. pos x) \<longrightarrow> pos (fsum ops xs)"
    unfolding float_laws_def by blast
  have "pos (float_weight ops p)" if "p \<in> set ps" for p
  proof -
    from len that have "0 < int (length p)" "int (length p) \<le> PREDICTION_DEPTH" by auto
    with w show ?thesis unfolding float_weight_def by blast
  qed
  then have "\<forall>x\<in>set (map (float_weight ops) ps). pos x" by auto
  moreover from ne have "map (float_weight ops) ps \<noteq> []" by simp
  ultimately have "pos (fsum ops (map (float_weight ops) ps))" using s by blast
  with ne have "pos (np_sum ops (map (float_weight ops) ps))" by (simp add: np_sum_def)
  with z show ?thesis by auto
qed

lemma np_average_mean:
  assumes "np_sum ops (map (float_weight ops) ps) \<noteq> fzero ops"
  shows "np_average ops (map (spec_signal h) ps) (map (float_weight ops) ps) =
           Inr (float_weighted_mean ops h ps)"
  using assms by (simp add: np_average_def float_weighted_mean_def map2_maps)

lemma found_nonempty: "found h dst sn depth tm at_home pth vis p \<Longrightarrow> p \<noteq> []"
  by (simp add: found_def closes_def)

lemma predict_float:
  assumes "float_laws ops"
    and "get_team league home = Inr ht" "get_team league away = Inr awt"
    and "find_all_paths h ht awt sn PREDICTION_DEPTH = Inr ps"
    and "ps \<noteq> []"
    and "\<forall>p\<in>set ps. \<forall>m\<in>set p. match_invariant h m"
  shows "predict ops h league home away sn = Inr (float_weighted_mean ops h ps)"
proof -
  from assms(4) have len: "\<forall>p\<in>set ps. p \<noteq> [] \<and> int (length p) \<le> PREDICTION_DEPTH"
    by (auto dest!: find_all_paths_foundD simp: found_def closes_def)
  with assms(6) have "\<forall>p\<in>set ps. p \<noteq> [] \<and> (\<forall>m\<in>set p. match_invariant h m)" by simp
  from predict_loop_lists[OF this, of ops "[]" "[]"]
  have "predict_loop ops h ps [] [] = Inr (map (spec_signal h) ps, map (float_weight ops) ps)"
    by simp
  with predict_unfold[OF assms(2-4), of ops]
    np_average_mean[OF sum_weights_nonzero[OF assms(1,5) len], of h]
  show ?thesis by simp
qed

subsection \<open>Double precision\<close>

lemma round_to_exponent:
  assumes "2 powr of_int k \<le> \<bar>x\<bar>" "\<bar>x\<bar> < 2 powr of_int (k + 1)"
  shows "round_to p x =
    of_int (round_half_even (x / 2 powr of_int (k - int p))) * 2 powr of_int (k - int p)"
proof -
  have "0 < 2 powr real_of_int k" by simp
  with assms(1) have x: "0 < \<bar>x\<bar>" by linarith
  with assms have "\<lfloor>log 2 \<bar>x\<bar>\<rfloor> = k"
    by (subst floor_log_eq_powr_iff) simp_all
  with x show ?thesis by (simp add: round_to_def)
qed

lemma powr_neg_nat: "2 powr (- real m) = 1 / (2::real) ^ m"
  by (simp add: powr_minus powr_realpow divide_inverse)

text \<open>Rounding a real between \<open>2 ^ n\<close> and \<open>2 ^ (n + 1)\<close>, and between \<open>2 ^ - n\<close> and \<open>2 ^ (1 - n)\<close>.\<close>

lemma round_to_ge1:
  assumes "2 ^ n \<le> \<bar>x\<bar>" "\<bar>x\<bar> < 2 * 2 ^ n" "n \<le> p"
  shows "round_to p x = of_int (round_half_even (x * 2 ^ (p - n))) / 2 ^ (p - n)"
proof -
  have a: "2 powr of_int (int n) = (2::real) ^ n" by (simp add: powr_realpow)
  have "2 powr (real n + 1) = 2 powr real n * (2::real) powr 1" by (rule powr_add)
  then have b: "2 powr of_int (int n + 1) = (2::real) * 2 ^ n"
    by (simp add: powr_realpow)
  from assms(3) have "real_of_int (int n - int p) = - real (p - n)" by simp
  then have c: "2 powr of_int (int n - int p) = 1 / (2::real) ^ (p - n)"
    by (simp only: powr_neg_nat)
  from assms(1,2) have "2 powr of_int (int n) \<le> \<bar>x\<bar>" "\<bar>x\<bar> < 2 powr of_int (int n + 1)"
    unfolding a b by simp_all
  from round_to_exponent[OF this, of p] show ?thesis unfolding c by simp
qed

lemma round_to_lt1:
  assumes "1 / 2 ^ n \<le> \<bar>x\<bar>" "\<bar>x\<bar> < 2 / 2 ^ n"
  shows "round_to p x = of_int (round_half_even (x * 2 ^ (p + n))) / 2 ^ (p + n)"
proof -
  have "real_of_int (- int n) = - real n" by simp
  then have a: "2 powr of_int (- int n) = 1 / (2::real) ^ n"
    by (simp only: powr_neg_nat)
  have "2 powr (1 - real n) = 2 powr 1 / (2::real) powr real n" by (rule powr_diff)
  moreover have "real_of_int (- int n + 1) = 1 - real n" by simp
  ultimately have b: "2 powr of_int (- int n + 1) = 2 / (2::real) ^ n"
    by (simp add: powr_realpow)
  have "real_of_int (- int n - int p) = - real (p + n)" by simp
  then have c: "2 powr of_int (- int n - int p) = 1 / (2::real) ^ (p + n)"
    by (simp only: powr_neg_nat)
  from assms(1,2) have "2 powr of_int (- int n) \<le> \<bar>x\<bar>" "\<bar>x\<bar> < 2 powr of_int (- int n + 1)"
    unfolding a b by simp_all
  from round_to_exponent[OF this, of p] show ?thesis unfolding c by simp
qed

text \<open>Rounding keeps a positive real positive.\<close>

lemma round_half_even_ge_floor: "\<lfloor>q\<rfloor> \<le> round_half_even q"
  by (simp add: round_half_even_def Let_def)

lemma round_to_pos:
  assumes "0 < x"
  shows "0 < round_to p x"
proof -
  let ?k = "\<lfloor>log 2 x\<rfloor>"
  let ?e = "?k - int p"
  have "real_of_int ?k \<le> log 2 x" by simp
  then have "2 powr real_of_int ?k \<le> 2 powr log 2 x" by (simp only: powr_le_cancel_iff) 
  with assms have k: "2 powr real_of_int ?k \<le> x" by simp
  have "real_of_int ?e \<le> real_of_int ?k" by simp
  then have "2 powr real_of_int ?e \<le> 2 powr real_of_int ?k" by (subst powr_le_cancel_iff) simp_all
  with k have "2 powr real_of_int ?e \<le> x" by linarith
  moreover have e: "0 < 2 powr real_of_int ?e" by simp
  ultimately have "1 \<le> x / 2 powr real_of_int ?e" by (simp add: le_divide_eq)
  then have "1 \<le> \<lfloor>x / 2 powr real_of_int ?e\<rfloor>" by linarith
  with round_half_even_ge_floor[of "x / 2 powr real_of_int ?e"]
  have "1 \<le> round_half_even (x / 2 powr real_of_int ?e)" by linarith
  then have "0 < real_of_int (round_half_even (x / 2 powr real_of_int ?e))" by simp
  from mult_pos_pos[OF this e]
  have "0 < real_of_int (round_half_even (x / 2 powr real_of_int ?e)) * 2 powr real_of_int ?e" .
  with assms show ?thesis by (simp add: round_to_def)
qed

lemma binary64_pos: "0 < x \<Longrightarrow> 0 < binary64 x"
  unfolding binary64_def by (rule round_to_pos)

lemma double_sum_pos:
  "0 \<le> acc \<Longrightarrow> xs \<noteq> [] \<Longrightarrow> \<forall>x\<in>set xs. 0 < x \<Longrightarrow>
     0 < foldl (\<lambda>acc x. binary64 (acc + x)) acc xs"
proof (induction xs arbitrary: acc)
  case Nil
  then show ?case by simp
next
  case (Cons x xs)
  from Cons.prems have p: "0 < binary64 (acc + x)" by (intro binary64_pos) simp
  show ?case
  proof (cases "xs = []")
    case True
    with p show ?thesis by simp
  next
    case False
    from Cons.IH[OF _ False, of "binary64 (acc + x)"] p Cons.prems show ?thesis by simp
  qed
qed

lemma double_laws: "float_laws double_ops"
  unfolding float_laws_def
proof (intro exI[of _ "\<lambda>x. 0 < x"] conjI allI impI)
  show "\<not> 0 < fzero double_ops" by (simp add: double_ops_def)
next
  fix n :: int assume "0 < n \<and> n \<le> PREDICTION_DEPTH"
  then show "0 < truediv double_ops 1 n" by (simp add: double_ops_def binary64_pos)
next
  fix xs :: "real list" assume "xs \<noteq> [] \<and> (\<forall>x\<in>set xs. 0 < x)"
  then show "0 < fsum double_ops xs" by (simp add: double_ops_def double_sum_pos)
qed

subsection \<open>The prediction for the league of four teams, in double precision\<close>

text \<open>
  The weight of a chain of three matches is the double nearest to one third, and three
  times that double rounds to 1.  The three weights sum to a double just below 5/3, so
  the quotient of the sum of the products, 5, by the sum of the weights is not 3 but the
  next double above 3.
\<close>

lemma b64_third: "binary64 (1 / 3) = 6004799503160661 / 18014398509481984"
  unfolding binary64_def
  by (subst round_to_lt1[of 2]) (simp_all add: round_half_even_def)

lemma b64_small: "binary64 1 = 1" "binary64 2 = 2" "binary64 3 = 3" "binary64 5 = 5"
  unfolding binary64_def
  by ((subst round_to_ge1[of 0]; simp add: round_half_even_def),
      (subst round_to_ge1[of 1]; simp add: round_half_even_def),
      (subst round_to_ge1[of 1]; simp add: round_half_even_def),
      (subst round_to_ge1[of 2]; simp add: round_half_even_def))

lemma b64_third_again:
  "binary64 (6004799503160661 / 18014398509481984) = 6004799503160661 / 18014398509481984"
  unfolding binary64_def
  by (subst round_to_lt1[of 2]) (simp_all add: round_half_even_def)

lemma b64_three_thirds: "binary64 (3 * (6004799503160661 / 18014398509481984)) = 1"
  unfolding binary64_def
  by (subst round_to_lt1[of 1]) (simp_all add: round_half_even_def)

lemma b64_two_thirds:
  "binary64 (6004799503160661 / 18014398509481984 + 6004799503160661 / 18014398509481984) =
     6004799503160661 / 9007199254740992"
  unfolding binary64_def
  by (subst round_to_lt1[of 1]) (simp_all add: round_half_even_def)

lemma b64_weights:
  "binary64 (6004799503160661 / 9007199254740992 + 1) = 3752999689475413 / 2251799813685248"
  unfolding binary64_def
  by (subst round_to_ge1[of 0]) (simp_all add: round_half_even_def)

lemma b64_third_plus_1:
  "binary64 (6004799503160661 / 18014398509481984 + 1) = 6004799503160661 / 4503599627370496"
  unfolding binary64_def
  by (subst round_to_ge1[of 0]) (simp_all add: round_half_even_def)

lemma b64_weights_other:
  "binary64 (6004799503160661 / 18014398509481984 + 6004799503160661 / 4503599627370496) =
     3752999689475413 / 2251799813685248"
  unfolding binary64_def
  by (subst round_to_ge1[of 0]) (simp_all add: round_half_even_def)

lemma b64_quotient:
  "binary64 (5 / (3752999689475413 / 2251799813685248)) = 6755399441055745 / 2251799813685248"
  unfolding binary64_def
  by (subst round_to_ge1[of 1]) (simp_all add: round_half_even_def)


lemma league2_signals:
  "spec_signal league2_store [0, 1, 2] = 3" "spec_signal league2_store [3, 4, 5] = 3"
  "spec_signal league2_store [6] = 3"
  by (simp_all add: spec_signal_def league_defs)

lemma league2_weights:
  "float_weight double_ops [0, 1, 2] = 6004799503160661 / 18014398509481984"
  "float_weight double_ops [3, 4, 5] = 6004799503160661 / 18014398509481984"
  "float_weight double_ops [6] = 1"
  by (simp_all add: float_weight_def double_ops_def b64_third b64_small)

lemma league2_products:
  "fmul double_ops (from_int double_ops 3) (6004799503160661 / 18014398509481984) = 1"
  "fmul double_ops (from_int double_ops 3) 1 = 3"
proof -
  have "fmul double_ops (from_int double_ops 3) (6004799503160661 / 18014398509481984) =
      binary64 (3 * (6004799503160661 / 18014398509481984))"
    by (simp add: double_ops_def b64_small)
  then show "fmul double_ops (from_int double_ops 3) (6004799503160661 / 18014398509481984) = 1"
    by (simp only: b64_three_thirds)
  show "fmul double_ops (from_int double_ops 3) 1 = 3"
    by (simp add: double_ops_def b64_small)
qed

lemma league2_sum_products: "np_sum double_ops [1, 1, 3] = 5"
  by (simp add: np_sum_def double_ops_def b64_small)

lemma league2_sum_weights:
  "np_sum double_ops [6004799503160661 / 18014398509481984, 6004799503160661 / 18014398509481984, 1] =
     3752999689475413 / 2251799813685248"
proof -
  let ?x = "6004799503160661 / 18014398509481984 :: real"
  have "np_sum double_ops [?x, ?x, 1] = binary64 (binary64 (binary64 (0 + ?x) + ?x) + 1)"
    by (simp only: np_sum_def double_ops_def float_ops.simps foldl.simps list.simps if_False)
  also have "binary64 (0 + ?x) = ?x" by (simp only: add_0 b64_third_again)
  finally show ?thesis by (simp only: b64_two_thirds b64_weights)
qed

lemma league2_float_mean:
  "float_weighted_mean double_ops league2_store [[0, 1, 2], [3, 4, 5], [6]] =
     6755399441055745 / 2251799813685248"
proof -
  have "float_weighted_mean double_ops league2_store [[0, 1, 2], [3, 4, 5], [6]] =
     fdiv double_ops (np_sum double_ops [1, 1, 3])
       (np_sum double_ops [6004799503160661 / 18014398509481984, 6004799503160661 / 18014398509481984, 1])"
    by (simp only: float_weighted_mean_def list.map league2_signals league2_weights league2_products)
  also have "\<dots> = fdiv double_ops 5 (3752999689475413 / 2251799813685248)"
    by (simp only: league2_sum_products league2_sum_weights)
  also have "\<dots> = binary64 (5 / (3752999689475413 / 2251799813685248))"
    by (simp only: double_ops_def float_ops.simps)
  finally show ?thesis by (simp only: b64_quotient)
qed

text \<open>
  The sum of the three weights is the same double when the first weight is added to the
  sum of the other two.
\<close>

lemma league2_sum_weights_other_order:
  "binary64 (6004799503160661 / 18014398509481984 +
      binary64 (binary64 (0 + 6004799503160661 / 18014398509481984) + 1)) =
     3752999689475413 / 2251799813685248"
  by (simp only: add_0 b64_third_again b64_third_plus_1 b64_weights_other)

lemma league2_exact_mean:
  "spec_weighted_mean league2_store [[0, 1, 2], [3, 4, 5], [6]] = 3"
  by (simp add: spec_weighted_mean_def spec_weight_def spec_signal_def league_defs)

lemma league2_teams: "get_team league2 ''A'' = Inr 0" "get_team league2 ''Z'' = Inr 3"
  by (simp_all add: get_team_def league2_def)

lemma league2_match_invariant:
  "\<forall>p\<in>set [[0, 1, 2], [3, 4, 5], [6]]. \<forall>m\<in>set p. match_invariant league2_store m"
  by (simp add: match_invariant_def league_defs)

lemma league2_prediction_paths:
  "find_all_paths league2_store 0 3 ''2010-11'' PREDICTION_DEPTH = Inr [[0, 1, 2], [3, 4, 5], [6]]"
  using league2_paths by (simp add: PREDICTION_DEPTH_def)

lemma league2_prediction:
  "predict double_ops league2_store league2 ''A'' ''Z'' ''2010-11'' =
     Inr (6755399441055745 / 2251799813685248)"
proof -
  have ne: "[[0, 1, 2], [3, 4, 5], [6 :: nat]] \<noteq> []" by simp
  from predict_float[OF double_laws league2_teams league2_prediction_paths ne league2_match_invariant]
  show ?thesis by (simp only: league2_float_mean)
qed

text \<open>
  Claim C2 says that \<^verbatim>\<open>predict\<close> returns exactly the weighted mean of the signals.  In
  the league of four teams the three chains from A to Z have signal 3 each, so their
  weighted mean is 3; \<^verbatim>\<open>predict\<close>, computing in double precision, returns the double
  \<open>3 + 1 / 2 ^ 51\<close>.
\<close>

theorem predict_exact_mean_counterexample:
  "find_all_paths league2_store 0 3 ''2010-11'' PREDICTION_DEPTH = Inr [[0, 1, 2], [3, 4, 5], [6]] \<and>
   spec_weighted_mean league2_store [[0, 1, 2], [3, 4, 5], [6]] = 3 \<and>
   predict double_ops league2_store league2 ''A'' ''Z'' ''2010-11'' =
     Inr (6755399441055745 / 2251799813685248) \<and>
   predict double_ops league2_store league2 ''A'' ''Z'' ''2010-11'' \<noteq>
     Inr (spec_weighted_mean league2_store [[0, 1, 2], [3, 4, 5], [6]])"
proof -
  have "(6755399441055745 / 2251799813685248 :: real) \<noteq> 3" by simp
  with league2_prediction league2_exact_mean league2_prediction_paths show ?thesis by simp
qed

text \<open>
  Claim C2, amended.  When the enumerator returns at least one chain, \<^verbatim>\<open>predict\<close> returns
  the weighted mean of the signals as evaluated in floating point: with the weight of a
  chain the float quotient of 1 by its number of matches and its signal the sum over its
  matches of the home side's minus the away side's full-time goals, each match with its
  own home and away side, the result is the float quotient of the array sum of the float
  products of signal and weight by the array sum of the weights.  It is the exact mean
  up to rounding only.  The teams are in the league and the matches carry the details of
  both their sides, as the preconditions of \<^verbatim>\<open>predict\<close> and the invariant of \<^verbatim>\<open>Match\<close>
  require.
\<close>

theorem predict_float_mean:
  assumes "float_laws ops"
    and "get_team league home = Inr ht" "get_team league away = Inr awt"
    and "find_all_paths h ht awt sn PREDICTION_DEPTH = Inr ps"
    and "ps \<noteq> []"
    and "\<forall>p\<in>set ps. \<forall>m\<in>set p. match_invariant h m"
  shows "predict ops h league home away sn = Inr (float_weighted_mean ops h ps)"
  using assms by (rule predict_float)

theorem predict_float_mean_witness:
  "float_laws double_ops \<and>
   get_team league2 ''A'' = Inr 0 \<and> get_team league2 ''Z'' = Inr 3 \<and>
   find_all_paths league2_store 0 3 ''2010-11'' PREDICTION_DEPTH = Inr [[0, 1, 2], [3, 4, 5], [6]] \<and>
   [[0, 1, 2], [3, 4, 5], [6 :: nat]] \<noteq> [] \<and>
   match_invariant league2_store 0 \<and> match_invariant league2_store 6 \<and>
   float_weighted_mean double_ops league2_store [[0, 1, 2], [3, 4, 5], [6]] =
     6755399441055745 / 2251799813685248 \<and>
   predict double_ops league2_store league2 ''A'' ''Z'' ''2010-11'' =
     Inr (6755399441055745 / 2251799813685248)"
proof -
  have ne: "[[0, 1, 2], [3, 4, 5], [6 :: nat]] \<noteq> []" by simp
  from predict_float_mean[OF double_laws league2_teams league2_prediction_paths ne
      league2_match_invariant]
  have "predict double_ops league2_store league2 ''A'' ''Z'' ''2010-11'' =
      Inr (6755399441055745 / 2251799813685248)"
    by (simp only: league2_float_mean)
  moreover from league2_match_invariant
  have "match_invariant league2_store 0" "match_invariant league2_store 6" by simp_all
  ultimately show ?thesis
    using double_laws league2_teams league2_prediction_paths ne league2_float_mean by blast
qed

text \<open>
  Claim C1.  When the enumerator returns no chain, \<^verbatim>\<open>predict\<close> does not return a number:
  the average of the empty list of signals raises an error, the \<^verbatim>\<open>ZeroDivisionError\<close>
  of \<^verbatim>\<open>numpy.average\<close> for weights that sum to zero.  In particular the result is not
  \<^verbatim>\<open>0.0\<close>.
\<close>

theorem predict_no_path:
  assumes "get_team league home = Inr ht" "get_team league away = Inr awt"
    and "find_all_paths h ht awt sn PREDICTION_DEPTH = Inr []"
  shows "predict ops h league home away sn = Inl ZeroDivisionError \<and>
         predict ops h league home away sn \<noteq> Inr (fzero ops)"
  using predict_unfold[OF assms, of ops] by (simp add: np_average_def np_sum_def)

lemma league1_no_path: "find_all_paths league1_store 0 2 ''2010-11'' PREDICTION_DEPTH = Inr []"
  by (simp add: run_defs league_defs PREDICTION_DEPTH_def)

theorem predict_no_path_witness:
  "get_team league1 ''A'' = Inr 0 \<and> get_team league1 ''C'' = Inr 2 \<and>
   find_all_paths league1_store 0 2 ''2010-11'' PREDICTION_DEPTH = Inr [] \<and>
   predict double_ops league1_store league1 ''A'' ''C'' ''2010-11'' = Inl ZeroDivisionError \<and>
   predict double_ops league1_store league1 ''A'' ''C'' ''2010-11'' \<noteq> Inr 0"
proof -
  have g: "get_team league1 ''A'' = Inr 0" "get_team league1 ''C'' = Inr 2"
    by (simp_all add: get_team_def league1_def)
  from predict_no_path[OF g league1_no_path, of double_ops] g league1_no_path
  show ?thesis by (simp add: double_ops_def)
qed

section \<open>The shape of a chain\<close>

text \<open>
  Equality of teams is an equivalence, and equal teams have the same name.
\<close>

lemma team_eq_refl: "team_eq h a a"
  by (simp add: team_eq_def)

lemma team_eq_sym: "team_eq h a b \<Longrightarrow> team_eq h b a"
  by (simp add: team_eq_def)

lemma team_eq_trans: "team_eq h a b \<Longrightarrow> team_eq h b c \<Longrightarrow> team_eq h a c"
  by (simp add: team_eq_def)

lemma team_eq_name: "team_eq h a b \<Longrightarrow> name (team_at h a) = name (team_at h b)"
  by (simp add: team_eq_def)

lemma length_hops: "length (hops h tm ms) = Suc (length ms)"
  by (induction ms arbitrary: tm) simp_all

lemma hops_first: "hops h tm ms ! 0 = tm"
  by (cases ms) simp_all

lemma hops_last: "last (hops h tm ms) = hops h tm ms ! length ms"
  using length_hops[of h tm ms] by (metis diff_Suc_1 last_conv_nth length_0_conv nat.simps(3))

text \<open>
  What one hop of a trail looks like: the match is in the list of the team the search
  stands at, the next team is the other team of the match, and the match was not skipped
  for its role.  The flag is inverted at every hop, so hop \<open>i\<close> is taken with the initial
  flag when \<open>i\<close> is even.
\<close>

lemma trail_hop:
  "trail h sn tm at_home vis ms \<Longrightarrow> i < length ms \<Longrightarrow>
     ms ! i \<in> set (matches (team_at h (hops h tm ms ! i))) \<and>
     hops h tm ms ! Suc i = get_other_team h (ms ! i) (hops h tm ms ! i) \<and>
     ((at_home = even i) \<longrightarrow> \<not> team_eq h (home_team (match_at h (ms ! i))) (hops h tm ms ! Suc i)) \<and>
     ((at_home \<noteq> even i) \<longrightarrow> \<not> team_eq h (away_team (match_at h (ms ! i))) (hops h tm ms ! Suc i))"
proof (induction ms arbitrary: tm at_home vis i)
  case Nil
  then show ?case by simp
next
  case (Cons m ms)
  show ?case
  proof (cases i)
    case 0
    with Cons.prems show ?thesis
      by (auto simp: skip_match_def hops_first)
  next
    case (Suc j)
    with Cons.prems have "trail h sn (get_other_team h m tm) (\<not> at_home) (insert (name (team_at h tm)) vis) ms"
      "j < length ms" by simp_all
    note ih = Cons.IH[OF this]
    let ?T = "hops h (get_other_team h m tm) ms"
    from ih have a: "ms ! j \<in> set (matches (team_at h (?T ! j)))" by blast
    from ih have b: "?T ! Suc j = get_other_team h (ms ! j) (?T ! j)" by blast
    from ih have c: "(\<not> at_home) = even j \<Longrightarrow> \<not> team_eq h (home_team (match_at h (ms ! j))) (?T ! Suc j)"
      by blast
    from ih have d: "(\<not> at_home) \<noteq> even j \<Longrightarrow> \<not> team_eq h (away_team (match_at h (ms ! j))) (?T ! Suc j)"
      by blast
    have e: "(at_home = even (Suc j)) = ((\<not> at_home) = even j)" by auto
    have 1: "(m # ms) ! Suc j = ms ! j" "hops h tm (m # ms) ! Suc j = ?T ! j"
      "hops h tm (m # ms) ! Suc (Suc j) = ?T ! Suc j"
      by simp_all
    show ?thesis
      unfolding Suc e 1 using a b c d by blast
  qed
qed

text \<open>
  A hop taken with the flag set leaves from the home side and arrives at the away side.
  A hop taken with the flag unset arrives at the home side; that it leaves from the away
  side needs the invariant of \<^verbatim>\<open>Team\<close>.
\<close>

lemma home_hop:
  assumes "trail h sn tm True vis ms" "i < length ms" "even i"
  shows "team_eq h (hops h tm ms ! i) (home_team (match_at h (ms ! i))) \<and>
         hops h tm ms ! Suc i = away_team (match_at h (ms ! i))"
proof -
  let ?t = "hops h tm ms ! i" and ?m = "ms ! i"
  note th = trail_hop[OF assms(1,2)]
  from th have o: "hops h tm ms ! Suc i = get_other_team h ?m ?t" by blast
  from th assms(3) have n: "\<not> team_eq h (home_team (match_at h ?m)) (hops h tm ms ! Suc i)"
    by blast
  show ?thesis
  proof (cases "team_eq h ?t (home_team (match_at h ?m))")
    case True
    with o show ?thesis by (simp add: get_other_team_def)
  next
    case False
    with o have "hops h tm ms ! Suc i = home_team (match_at h ?m)"
      by (simp add: get_other_team_def)
    with n show ?thesis by (simp add: team_eq_refl)
  qed
qed

lemma away_hop:
  assumes "trail h sn tm True vis ms" "i < length ms" "odd i"
    and inv: "team_invariant h (hops h tm ms ! i)"
  shows "team_eq h (hops h tm ms ! i) (away_team (match_at h (ms ! i))) \<and>
         hops h tm ms ! Suc i = home_team (match_at h (ms ! i))"
proof -
  let ?t = "hops h tm ms ! i" and ?m = "ms ! i"
  note th = trail_hop[OF assms(1,2)]
  from th have m: "?m \<in> set (matches (team_at h ?t))" by blast
  from th have o: "hops h tm ms ! Suc i = get_other_team h ?m ?t" by blast
  from th assms(3) have n: "\<not> team_eq h (away_team (match_at h ?m)) (hops h tm ms ! Suc i)"
    by blast
  show ?thesis
  proof (cases "team_eq h ?t (home_team (match_at h ?m))")
    case True
    with o have "hops h tm ms ! Suc i = away_team (match_at h ?m)"
      by (simp add: get_other_team_def)
    with n show ?thesis by (simp add: team_eq_refl)
  next
    case False
    with inv m have "team_eq h ?t (away_team (match_at h ?m))"
      by (auto simp: team_invariant_def)
    with False o show ?thesis by (simp add: get_other_team_def)
  qed
qed

text \<open>The names of the teams along a trail are distinct and were not visited before.\<close>

lemma trail_names:
  "trail h sn tm at_home vis ms \<Longrightarrow> name (team_at h tm) \<notin> vis \<Longrightarrow>
     distinct (map (\<lambda>t. name (team_at h t)) (hops h tm ms)) \<and>
     (\<forall>t\<in>set (hops h tm ms). name (team_at h t) \<notin> vis)"
proof (induction ms arbitrary: tm at_home vis)
  case Nil
  then show ?case by simp
next
  case (Cons m ms)
  let ?o = "get_other_team h m tm" and ?v = "insert (name (team_at h tm)) vis"
  from Cons.prems have t: "trail h sn ?o (\<not> at_home) ?v ms" and n: "name (team_at h ?o) \<notin> ?v"
    by (simp_all add: skip_match_def)
  from Cons.IH[OF t n] Cons.prems(2) show ?case by auto
qed

lemma hop_names_distinct:
  assumes "trail h sn tm at_home {} ms" "i \<le> length ms" "j \<le> length ms"
    and "name (team_at h (hops h tm ms ! i)) = name (team_at h (hops h tm ms ! j))"
  shows "i = j"
proof -
  let ?L = "map (\<lambda>t. name (team_at h t)) (hops h tm ms)"
  from trail_names[OF assms(1)] have d: "distinct ?L" by simp
  from assms(2,3) have l: "i < length ?L" "j < length ?L"
    by (simp_all add: length_hops)
  then have "?L ! i = name (team_at h (hops h tm ms ! i))" "?L ! j = name (team_at h (hops h tm ms ! j))"
    by simp_all
  with assms(4) have "?L ! i = ?L ! j" by simp
  with d l show ?thesis by (simp only: nth_eq_iff_index_eq)
qed

lemma found_root:
  assumes "found h dst sn depth src True [] {} p"
  shows "trail h sn src True {} p" "closes h dst p" "p \<noteq> []"
    "n < length p \<Longrightarrow> \<not> closes h dst (take n p)"
proof -
  from assms show "trail h sn src True {} p" by (simp add: found_def)
  from assms show "closes h dst p" by (simp add: found_def)
  then show "p \<noteq> []" by (simp add: closes_def)
  from assms have "\<forall>n. n < length p \<longrightarrow> \<not> closes h dst (take n p)"
    by (simp add: found_def)
  then show "n < length p \<Longrightarrow> \<not> closes h dst (take n p)" by blast
qed

lemma closes_last:
  "closes h dst p \<Longrightarrow> team_eq h (away_team (match_at h (p ! (length p - 1)))) dst"
  unfolding closes_def by (auto simp: last_conv_nth)

lemma last_take_Suc: "k < length p \<Longrightarrow> last (take (Suc k) p) = p ! k"
  by (simp add: take_Suc_conv_app_nth)

lemma found_odd:
  assumes inv: "\<forall>t. team_invariant h t"
    and f: "found h dst sn depth src True [] {} p"
  shows "odd (length p)"
proof (rule ccontr)
  assume "\<not> odd (length p)"
  with found_root(3)[OF f] obtain k where n: "length p = Suc (Suc k)" and ev: "even k"
    by (cases p; cases "tl p") (auto simp: neq_Nil_conv)
  let ?T = "hops h src p"
  note tr = found_root(1)[OF f]
  from n ev have "team_eq h (?T ! Suc k) (away_team (match_at h (p ! Suc k)))"
    using away_hop[OF tr, of "Suc k"] inv by simp
  moreover from closes_last[OF found_root(2)[OF f]] n
  have "team_eq h (away_team (match_at h (p ! Suc k))) dst" by simp
  ultimately have td: "team_eq h (?T ! Suc k) dst" by (rule team_eq_trans)
  from n ev have "?T ! Suc k = away_team (match_at h (p ! k))"
    using home_hop[OF tr, of k] by simp
  with td have "team_eq h (away_team (match_at h (p ! k))) dst" by simp
  moreover from n have "take (Suc k) p \<noteq> []" "last (take (Suc k) p) = p ! k"
    by (auto simp: last_take_Suc)
  ultimately have "closes h dst (take (Suc k) p)" by (simp add: closes_def)
  with found_root(4)[OF f, of "Suc k"] n show False by simp
qed

lemma found_arrives:
  assumes inv: "\<forall>t. team_invariant h t"
    and f: "found h dst sn depth src True [] {} p"
  shows "team_eq h (last (hops h src p)) dst"
proof -
  from found_odd[OF inv f] obtain k where n: "length p = Suc k" and ev: "even k"
    by (cases p) auto
  note tr = found_root(1)[OF f]
  from n ev have "hops h src p ! Suc k = away_team (match_at h (p ! k))"
    using home_hop[OF tr, of k] by simp
  moreover from closes_last[OF found_root(2)[OF f]] n
  have "team_eq h (away_team (match_at h (p ! k))) dst" by simp
  ultimately show ?thesis by (simp add: hops_last n)
qed

lemma hop_sides:
  assumes inv: "\<forall>t. team_invariant h t"
    and tr: "trail h sn src True {} p" and i: "i < length p"
  shows "name (team_at h (home_team (match_at h (p ! i)))) =
           name (team_at h (hops h src p ! (if even i then i else Suc i)))"
    and "name (team_at h (away_team (match_at h (p ! i)))) =
           name (team_at h (hops h src p ! (if even i then Suc i else i)))"
proof -
  show "name (team_at h (home_team (match_at h (p ! i)))) =
           name (team_at h (hops h src p ! (if even i then i else Suc i)))"
  proof (cases "even i")
    case True
    with home_hop[OF tr i] show ?thesis by (auto dest: team_eq_name)
  next
    case False
    with away_hop[OF tr i] inv show ?thesis by (auto dest: team_eq_name)
  qed
  show "name (team_at h (away_team (match_at h (p ! i)))) =
           name (team_at h (hops h src p ! (if even i then Suc i else i)))"
  proof (cases "even i")
    case True
    with home_hop[OF tr i] show ?thesis by (auto dest: team_eq_name)
  next
    case False
    with away_hop[OF tr i] inv show ?thesis by (auto dest: team_eq_name)
  qed
qed

lemma hop_participants:
  assumes inv: "\<forall>t. team_invariant h t"
    and tr: "trail h sn src True {} p" and i: "i < length p"
  shows "participants h (p ! i) =
           {name (team_at h (hops h src p ! i)), name (team_at h (hops h src p ! Suc i))}"
  using hop_sides[OF assms] by (cases "even i") (auto simp: participants_def)

lemma trail_distinct:
  assumes inv: "\<forall>t. team_invariant h t"
    and tr: "trail h sn src True {} p"
  shows "distinct p"
proof -
  have "i = j" if ij: "i < length p" "j < length p" "p ! i = p ! j" "i \<le> j" for i j
  proof -
    let ?N = "\<lambda>k. name (team_at h (hops h src p ! k))"
    from hop_sides[OF inv tr ij(1)] hop_sides[OF inv tr ij(2)] ij(3)
    have hm: "?N (if even i then i else Suc i) = ?N (if even j then j else Suc j)"
      and aw: "?N (if even i then Suc i else i) = ?N (if even j then Suc j else j)"
      by simp_all
    have d: "a = b" if "a \<le> length p" "b \<le> length p" "?N a = ?N b" for a b
      using hop_names_distinct[OF tr that] .
    show ?thesis
    proof (cases "even i")
      case True
      from ij(1,2) True d[OF _ _ hm] have "i = (if even j then j else Suc j)" by simp
      with ij(4) True show ?thesis by (auto split: if_splits)
    next
      case False
      from ij(1,2) False d[OF _ _ aw] have "i = (if even j then Suc j else j)" by simp
      with ij(4) False show ?thesis by (auto split: if_splits)
    qed
  qed
  then have "\<forall>i<length p. \<forall>j<length p. i \<noteq> j \<longrightarrow> p ! i \<noteq> p ! j"
    by (metis nat_le_linear)
  then show ?thesis by (simp add: distinct_conv_nth)
qed

lemma league2_invariant: "team_invariant league2_store t"
  by (simp add: team_invariant_def team_eq_def league_defs)

lemma league2_hops:
  "hops league2_store 0 [0, 1, 2] = [0, 1, 2, 3]"
  "hops league2_store 0 [3, 4, 5] = [0, 2, 1, 3]"
  "hops league2_store 0 [6] = [0, 3]"
  by (simp_all add: get_other_team_def team_eq_def league_defs)

text \<open>
  The invariant of \<^verbatim>\<open>Team\<close> is needed for what follows.  Where a team's list holds a
  match the team does not play in, a hop with the flag unset can leave from a team that
  is not the away side, and a chain of two matches from A back to A is recorded.
\<close>

lemma team_invariant_needed:
  "\<not> team_invariant league3_store 1 \<and>
   find_all_paths league3_store 0 0 ''2010-11'' 4 = Inr [[0, 1]]"
  by (simp add: run_defs league_defs league3_store_def team_invariant_def)

text \<open>
  Claim C4.  Every chain returned by \<^verbatim>\<open>_find_all_paths\<close> has an odd number of matches,
  for teams that satisfy the invariant of \<^verbatim>\<open>Team\<close>: a team is the home or the away side
  of every match in its list.
\<close>

theorem chain_length_odd:
  assumes "\<forall>t. team_invariant h t"
    and "find_all_paths h home_tm away_tm sn depth = Inr ps" and "p \<in> set ps"
  shows "odd (length p)"
  using found_odd[OF assms(1) find_all_paths_foundD[OF assms(2,3)]] .

theorem chain_length_odd_witness:
  "(\<forall>t. team_invariant league2_store t) \<and>
   find_all_paths league2_store 0 3 ''2010-11'' 4 = Inr [[0, 1, 2], [3, 4, 5], [6]] \<and>
   [3, 4, 5] \<in> set [[0, 1, 2], [3, 4, 5], [6 :: nat]] \<and>
   odd (length [3, 4, 5 :: nat])"
proof -
  have i: "\<forall>t. team_invariant league2_store t" using league2_invariant by blast
  from chain_length_odd[OF i league2_paths, of "[3, 4, 5]"] i league2_paths
  show ?thesis by simp
qed

text \<open>
  Claim C6.  In every chain returned by \<^verbatim>\<open>_find_all_paths\<close> the travelling team starts
  as the source; at every hop the next travelling team is the other team of the match;
  at the hops with an even index (the first, the third, ...) the travelling team is the
  home side and the next one is the away side, at the hops with an odd index it is the
  away side and the next one is the home side; and two consecutive matches have exactly
  one team name in common, that of the team travelling between them.
\<close>

theorem role_alternation:
  assumes "\<forall>t. team_invariant h t"
    and "find_all_paths h home_tm away_tm sn depth = Inr ps" and "p \<in> set ps"
  shows "hops h home_tm p ! 0 = home_tm \<and>
    (\<forall>i<length p.
       hops h home_tm p ! Suc i = get_other_team h (p ! i) (hops h home_tm p ! i) \<and>
       (even i \<longrightarrow>
          team_eq h (hops h home_tm p ! i) (home_team (match_at h (p ! i))) \<and>
          hops h home_tm p ! Suc i = away_team (match_at h (p ! i))) \<and>
       (odd i \<longrightarrow>
          team_eq h (hops h home_tm p ! i) (away_team (match_at h (p ! i))) \<and>
          hops h home_tm p ! Suc i = home_team (match_at h (p ! i)))) \<and>
    (\<forall>i. Suc i < length p \<longrightarrow>
       participants h (p ! i) \<inter> participants h (p ! Suc i) =
         {name (team_at h (hops h home_tm p ! Suc i))})"
proof (intro conjI allI impI)
  note f = find_all_paths_foundD[OF assms(2,3)]
  note tr = found_root(1)[OF f]
  show "hops h home_tm p ! 0 = home_tm" by (rule hops_first)
  {
    fix i assume i: "i < length p"
    from trail_hop[OF tr i]
    show "hops h home_tm p ! Suc i = get_other_team h (p ! i) (hops h home_tm p ! i)" by blast
    {
      assume "even i"
      from home_hop[OF tr i this]
      show "team_eq h (hops h home_tm p ! i) (home_team (match_at h (p ! i)))"
        and "hops h home_tm p ! Suc i = away_team (match_at h (p ! i))" by blast+
    }
    {
      assume "odd i"
      from away_hop[OF tr i this] assms(1)
      show "team_eq h (hops h home_tm p ! i) (away_team (match_at h (p ! i)))"
        and "hops h home_tm p ! Suc i = home_team (match_at h (p ! i))" by blast+
    }
  }
  {
    fix i assume i: "Suc i < length p"
    let ?N = "\<lambda>k. name (team_at h (hops h home_tm p ! k))"
    from i have "participants h (p ! i) = {?N i, ?N (Suc i)}"
      using hop_participants[OF assms(1) tr, of i] by simp
    moreover from i have "participants h (p ! Suc i) = {?N (Suc i), ?N (Suc (Suc i))}"
      using hop_participants[OF assms(1) tr, of "Suc i"] by simp
    moreover from i have "?N i \<noteq> ?N (Suc i)"
      using hop_names_distinct[OF tr, of i "Suc i"] by auto
    moreover from i have "?N i \<noteq> ?N (Suc (Suc i))"
      using hop_names_distinct[OF tr, of i "Suc (Suc i)"] by auto
    ultimately show "participants h (p ! i) \<inter> participants h (p ! Suc i) = {?N (Suc i)}"
      by auto
  }
qed

theorem role_alternation_witness:
  "(\<forall>t. team_invariant league2_store t) \<and>
   find_all_paths league2_store 0 3 ''2010-11'' 4 = Inr [[0, 1, 2], [3, 4, 5], [6]] \<and>
   [0, 1, 2] \<in> set [[0, 1, 2], [3, 4, 5], [6 :: nat]] \<and>
   hops league2_store 0 [0, 1, 2] = [0, 1, 2, 3] \<and>
   team_eq league2_store 0 (home_team (match_at league2_store 0)) \<and>
   team_eq league2_store 1 (away_team (match_at league2_store 1)) \<and>
   team_eq league2_store 2 (home_team (match_at league2_store 2)) \<and>
   participants league2_store 0 \<inter> participants league2_store 1 = {''X''} \<and>
   participants league2_store 1 \<inter> participants league2_store 2 = {''C''}"
proof -
  have i: "\<forall>t. team_invariant league2_store t" using league2_invariant by blast
  note r = role_alternation[OF i league2_paths, of "[0, 1, 2]", unfolded league2_hops]
  from r have a: "\<forall>i<3. (even i \<longrightarrow>
          team_eq league2_store ([0, 1, 2, 3] ! i) (home_team (match_at league2_store ([0, 1, 2] ! i)))) \<and>
       (odd i \<longrightarrow>
          team_eq league2_store ([0, 1, 2, 3] ! i) (away_team (match_at league2_store ([0, 1, 2] ! i))))"
    by simp
  from r have b: "\<forall>i. Suc i < 3 \<longrightarrow>
       participants league2_store ([0, 1, 2] ! i) \<inter> participants league2_store ([0, 1, 2] ! Suc i) =
         {name (team_at league2_store ([0, 1, 2, 3] ! Suc i))}"
    by simp
  from a[rule_format, of 0] a[rule_format, of 1] a[rule_format, of 2]
  have "team_eq league2_store 0 (home_team (match_at league2_store 0))"
    "team_eq league2_store 1 (away_team (match_at league2_store 1))"
    "team_eq league2_store 2 (home_team (match_at league2_store 2))"
    by simp_all
  moreover from b[rule_format, of 0] b[rule_format, of 1]
  have "participants league2_store 0 \<inter> participants league2_store 1 = {''X''}"
    "participants league2_store 1 \<inter> participants league2_store 2 = {''C''}"
    by (simp_all add: league_defs)
  moreover have "[0, 1, 2] \<in> set [[0, 1, 2], [3, 4, 5], [6 :: nat]]" by simp
  ultimately show ?thesis using i league2_paths league2_hops(1) by blast
qed

text \<open>
  Claim C8.  In every chain returned by \<^verbatim>\<open>_find_all_paths\<close> the teams travelled
  through, from the source to the team that equals the destination, have pairwise
  different names, and no match occurs twice.  A call of \<^verbatim>\<open>dfs\<close> on a team whose name is
  not in the visited set returns with the visited set as it found it, so that a name is
  excluded only below the call that added it.
\<close>

theorem no_repeated_team:
  assumes "\<forall>t. team_invariant h t"
    and "find_all_paths h home_tm away_tm sn depth = Inr ps" and "p \<in> set ps"
  shows "hops h home_tm p ! 0 = home_tm \<and>
    team_eq h (last (hops h home_tm p)) away_tm \<and>
    distinct (map (\<lambda>t. name (team_at h t)) (hops h home_tm p)) \<and>
    distinct p \<and>
    (\<forall>tm at_home st st'.
       name (team_at h tm) \<notin> visited st \<and> dfs h away_tm sn depth tm at_home st = Inr st' \<longrightarrow>
       visited st' = visited st)"
proof (intro conjI allI impI)
  note f = find_all_paths_foundD[OF assms(2,3)]
  note tr = found_root(1)[OF f]
  show "hops h home_tm p ! 0 = home_tm" by (rule hops_first)
  show "team_eq h (last (hops h home_tm p)) away_tm" by (rule found_arrives[OF assms(1) f])
  from trail_names[OF tr] show "distinct (map (\<lambda>t. name (team_at h t)) (hops h home_tm p))"
    by simp
  show "distinct p" by (rule trail_distinct[OF assms(1) tr])
next
  fix tm at_home st st'
  assume a: "name (team_at h tm) \<notin> visited st \<and> dfs h away_tm sn depth tm at_home st = Inr st'"
  then have "name (team_at h tm) \<notin> visited st" by simp
  from dfs_found(1)[OF this, of away_tm sn depth at_home] a
  show "visited st' = visited st" by auto
qed

theorem no_repeated_team_witness:
  "(\<forall>t. team_invariant league2_store t) \<and>
   find_all_paths league2_store 0 3 ''2010-11'' 4 = Inr [[0, 1, 2], [3, 4, 5], [6]] \<and>
   [0, 1, 2] \<in> set [[0, 1, 2], [3, 4, 5], [6 :: nat]] \<and>
   hops league2_store 0 [0, 1, 2] = [0, 1, 2, 3] \<and>
   hops league2_store 0 [3, 4, 5] = [0, 2, 1, 3] \<and>
   team_eq league2_store (last [0, 1, 2, 3]) 3 \<and>
   distinct (map (\<lambda>t. name (team_at league2_store t)) [0, 1, 2, 3]) \<and>
   distinct [0, 1, 2 :: nat]"
proof -
  have i: "\<forall>t. team_invariant league2_store t" using league2_invariant by blast
  have m: "[0, 1, 2] \<in> set [[0, 1, 2], [3, 4, 5], [6 :: nat]]" by simp
  note r = no_repeated_team[OF i league2_paths m, unfolded league2_hops]
  from r have "team_eq league2_store (last [0, 1, 2, 3]) 3" by blast
  moreover from r have "distinct (map (\<lambda>t. name (team_at league2_store t)) [0, 1, 2, 3])" by blast
  moreover from r have "distinct [0, 1, 2 :: nat]" by blast
  ultimately show ?thesis using i league2_paths m league2_hops(1,2) by blast
qed

lemma self_paths:
  assumes inv: "\<forall>t. team_invariant h t"
  shows "find_all_paths h t t sn depth = Inr []"
proof -
  from find_all_paths_found[of h t t sn depth] obtain ps where
    ps: "find_all_paths h t t sn depth = Inr ps"
    and f: "\<forall>p\<in>set ps. found h t sn depth t True [] {} p"
    by blast
  have "ps = []"
  proof (cases ps)
    case Nil
    then show ?thesis .
  next
    case (Cons p qs)
    with f have fp: "found h t sn depth t True [] {} p" by simp
    note tr = found_root(1)[OF fp]
    from found_arrives[OF inv fp] have "team_eq h (hops h t p ! length p) (hops h t p ! 0)"
      by (simp add: hops_last hops_first)
    then have "name (team_at h (hops h t p ! length p)) = name (team_at h (hops h t p ! 0))"
      by (rule team_eq_name)
    from hop_names_distinct[OF tr _ _ this] have "length p = 0" by simp
    with found_root(3)[OF fp] show ?thesis by simp
  qed
  with ps show ?thesis by simp
qed

text \<open>
  Claim C10.  From a team to itself \<^verbatim>\<open>_find_all_paths\<close> returns no chain, whatever the
  season and the depth, and \<^verbatim>\<open>predict\<close> of a team against itself returns no number: it
  raises \<^verbatim>\<open>KeyError\<close> when the team is not in the league and \<^verbatim>\<open>ZeroDivisionError\<close>
  otherwise.
\<close>

theorem self_paths_empty:
  assumes "\<forall>t. team_invariant h t"
  shows "find_all_paths h t t sn depth = Inr [] \<and>
         predict ops h league nm nm sn \<in> {Inl KeyError, Inl ZeroDivisionError}"
proof
  show "find_all_paths h t t sn depth = Inr []" by (rule self_paths[OF assms])
  show "predict ops h league nm nm sn \<in> {Inl KeyError, Inl ZeroDivisionError}"
  proof (cases "teams league nm")
    case None
    then show ?thesis by (simp add: predict_def get_team_def)
  next
    case (Some u)
    then have g: "get_team league nm = Inr u" by (simp add: get_team_def)
    from predict_unfold[OF g g self_paths[OF assms], of ops] show ?thesis
      by (simp add: np_average_def np_sum_def)
  qed
qed

theorem self_paths_empty_witness:
  "(\<forall>t. team_invariant league2_store t) \<and>
   find_all_paths league2_store 0 0 ''2010-11'' 4 = Inr [] \<and>
   predict double_ops league2_store league2 ''A'' ''A'' ''2010-11'' = Inl ZeroDivisionError"
proof -
  have i: "\<forall>t. team_invariant league2_store t" using league2_invariant by blast
  note r = self_paths_empty[OF i, of 0 "''2010-11''" 4 double_ops league2 "''A''"]
  have "predict double_ops league2_store league2 ''A'' ''A'' ''2010-11'' \<noteq> Inl KeyError"
    by (simp add: predict_def get_team_def league2_def np_average_def np_sum_def
        self_paths[OF i] split: sum.splits)
  with r have "predict double_ops league2_store league2 ''A'' ''A'' ''2010-11'' = Inl ZeroDivisionError"
    by blast
  with i r show ?thesis by blast
qed

end
